theory Spec2Isabelle
  imports Main
begin

section \<open>Python strings\<close>

text \<open>
  A Python \<^verbatim>\<open>str\<close> is modelled as a HOL \<^typ>\<open>string\<close>: a list of characters, each
  standing for the code point of the same number (0 to 255). The crawler of
  \<^verbatim>\<open>Milestone1.py\<close> only compares, slices and concatenates strings, so the model covers
  page bodies and URLs written with these code points.
\<close>

definition code :: "char \<Rightarrow> nat" where
  "code c = of_char c"

text \<open>\<^verbatim>\<open>str.isspace\<close> on one character, for the code points below 256.\<close>

definition isspace :: "char \<Rightarrow> bool" where
  "isspace c = (code c \<in> {9, 10, 11, 12, 13, 28, 29, 30, 31, 32, 133, 160})"

definition isascii :: "char \<Rightarrow> bool" where
  "isascii c = (code c < 128)"

definition isalpha_ascii :: "char \<Rightarrow> bool" where
  "isalpha_ascii c = ((65 \<le> code c \<and> code c \<le> 90) \<or> (97 \<le> code c \<and> code c \<le> 122))"

definition ishex :: "char \<Rightarrow> bool" where
  "ishex c = ((48 \<le> code c \<and> code c \<le> 57) \<or> (65 \<le> code c \<and> code c \<le> 70)
              \<or> (97 \<le> code c \<and> code c \<le> 102))"

text \<open>\<^verbatim>\<open>str.lower\<close>: A-Z and the capital letters of Latin-1 (all but the
  multiplication sign at 215) move up by 32.\<close>

definition lower_char :: "char \<Rightarrow> char" where
  "lower_char c =
     (if (65 \<le> code c \<and> code c \<le> 90) \<or> (192 \<le> code c \<and> code c \<le> 222 \<and> code c \<noteq> 215)
      then char_of (code c + 32) else c)"

definition lower :: "string \<Rightarrow> string" where
  "lower s = map lower_char s"

text \<open>\<^verbatim>\<open>s.lstrip(chars)\<close>, \<^verbatim>\<open>s.rstrip(chars)\<close> and \<^verbatim>\<open>s.strip(chars)\<close>, the set of
  characters given as a predicate.\<close>

definition lstrip :: "(char \<Rightarrow> bool) \<Rightarrow> string \<Rightarrow> string" where
  "lstrip P s = dropWhile P s"

definition rstrip :: "(char \<Rightarrow> bool) \<Rightarrow> string \<Rightarrow> string" where
  "rstrip P s = rev (dropWhile P (rev s))"

definition strip :: "(char \<Rightarrow> bool) \<Rightarrow> string \<Rightarrow> string" where
  "strip P s = rstrip P (lstrip P s)"

definition is_slash :: "char \<Rightarrow> bool" where
  "is_slash c = (c = CHR ''/'')"

definition startswith :: "string \<Rightarrow> string \<Rightarrow> bool" where
  "startswith s p = (take (length p) s = p)"

text \<open>\<^verbatim>\<open>s.find(c)\<close>: the index of the first occurrence, or -1.\<close>

definition find :: "char \<Rightarrow> string \<Rightarrow> int" where
  "find c s = (if c \<in> set s then int (length (takeWhile (\<lambda>x. x \<noteq> c) s)) else - 1)"

text \<open>\<^verbatim>\<open>s.split(c, 1)\<close> for a string that contains \<^verbatim>\<open>c\<close>, and \<^verbatim>\<open>s.partition(c)\<close>
  read at its first and last component.\<close>

definition split1 :: "char \<Rightarrow> string \<Rightarrow> string \<times> string" where
  "split1 c s = (takeWhile (\<lambda>x. x \<noteq> c) s, drop 1 (dropWhile (\<lambda>x. x \<noteq> c) s))"

text \<open>\<^verbatim>\<open>s.split(c)\<close> and \<^verbatim>\<open>c.join(parts)\<close>.\<close>

fun split :: "char \<Rightarrow> string \<Rightarrow> string list" where
  "split d [] = [[]]"
| "split d (c # cs) =
     (if c = d then [] # split d cs
      else (case split d cs of [] \<Rightarrow> [[c]] | x # xs \<Rightarrow> (c # x) # xs))"

fun join :: "char \<Rightarrow> string list \<Rightarrow> string" where
  "join d [] = []"
| "join d [x] = x"
| "join d (x # y # ys) = x @ d # join d (y # ys)"

section \<open>\<^verbatim>\<open>urllib.parse\<close>\<close>

text \<open>
  The crawler calls \<^verbatim>\<open>urlparse\<close>, \<^verbatim>\<open>urljoin\<close> and \<^verbatim>\<open>ParseResult.geturl\<close> of the
  standard library. They are embedded from \<^verbatim>\<open>urllib/parse.py\<close> of CPython 3.11, for
  \<^verbatim>\<open>str\<close> arguments and \<^verbatim>\<open>allow_fragments=True\<close>, the only way the crawler calls them.
  A \<^verbatim>\<open>ValueError\<close> of the library is the value \<open>Inl ValueError\<close>.

  Two parts of the library are not embedded. \<^verbatim>\<open>ipaddress.ip_address\<close>, which decides
  whether the text between brackets in a host is an IP address, is a parameter
  \<open>ipa\<close>: \<open>None\<close> where it raises. \<^verbatim>\<open>_checknetloc\<close> raises only when the NFKC form of
  a non-ASCII host contains one of \<^verbatim>\<open>/?#@:\<close>, which no code point below 256 produces:
  on the strings of this model it returns without an effect.
\<close>

datatype error = ValueError | OSError | IndexError

datatype ip_kind = IPv4Address | IPv6Address

type_synonym ip_address = "string \<Rightarrow> ip_kind option"

definition uses_relative :: "string list" where
  "uses_relative = ['''', ''ftp'', ''http'', ''gopher'', ''nntp'', ''imap'',
                    ''wais'', ''file'', ''https'', ''shttp'', ''mms'',
                    ''prospero'', ''rtsp'', ''rtsps'', ''rtspu'', ''sftp'',
                    ''svn'', ''svn+ssh'', ''ws'', ''wss'']"

definition uses_netloc :: "string list" where
  "uses_netloc = ['''', ''ftp'', ''http'', ''gopher'', ''nntp'', ''telnet'',
                  ''imap'', ''wais'', ''file'', ''mms'', ''https'', ''shttp'',
                  ''snews'', ''prospero'', ''rtsp'', ''rtsps'', ''rtspu'', ''rsync'',
                  ''svn'', ''svn+ssh'', ''sftp'', ''nfs'', ''git'', ''git+ssh'',
                  ''ws'', ''wss'']"

definition uses_params :: "string list" where
  "uses_params = ['''', ''ftp'', ''hdl'', ''prospero'', ''http'', ''imap'',
                  ''https'', ''shttp'', ''rtsp'', ''rtsps'', ''rtspu'', ''sip'',
                  ''sips'', ''mms'', ''sftp'', ''tel'']"

definition scheme_chars :: "string" where
  "scheme_chars = ''abcdefghijklmnopqrstuvwxyzABCDEFGHIJKLMNOPQRSTUVWXYZ0123456789+-.''"

definition whatwg_c0_control_or_space :: "char \<Rightarrow> bool" where
  "whatwg_c0_control_or_space c = (code c \<le> 32)"

definition unsafe_url_bytes_to_remove :: "string" where
  "unsafe_url_bytes_to_remove = [CHR 0x09, CHR 0x0D, CHR 0x0A]"

record split_result =
  sr_scheme :: string
  sr_netloc :: string
  sr_path :: string
  sr_query :: string
  sr_fragment :: string

record parse_result =
  scheme :: string
  netloc :: string
  path :: string
  params :: string
  query :: string
  fragment :: string

text \<open>\<^verbatim>\<open>_splitnetloc(url, 2)\<close>: the host runs from index 2 to the first of \<^verbatim>\<open>/?#\<close>.\<close>

definition splitnetloc :: "string \<Rightarrow> string \<times> string" where
  "splitnetloc url =
     (takeWhile (\<lambda>c. c \<notin> set ''/?#'') (drop 2 url),
      dropWhile (\<lambda>c. c \<notin> set ''/?#'') (drop 2 url))"

text \<open>The regular expression of \<^verbatim>\<open>_check_bracketed_host\<close> for an address of a future
  version: the whole host is a \<^verbatim>\<open>v\<close>, one or more hexadecimal digits, a dot, and one
  or more characters other than a newline.\<close>

definition ipvfuture :: "string \<Rightarrow> bool" where
  "ipvfuture h =
     (case h of
        [] \<Rightarrow> False
      | c # r \<Rightarrow>
          c = CHR ''v'' \<and> takeWhile ishex r \<noteq> [] \<and>
          (case dropWhile ishex r of
             [] \<Rightarrow> False
           | d # t \<Rightarrow> d = CHR ''.'' \<and> t \<noteq> [] \<and> CHR 0x0A \<notin> set t))"

definition check_bracketed_host :: "ip_address \<Rightarrow> string \<Rightarrow> error + unit" where
  "check_bracketed_host ipa hostname =
     (if startswith hostname ''v'' then
        (if ipvfuture hostname then Inr () else Inl ValueError)
      else
        (case ipa hostname of
           None \<Rightarrow> Inl ValueError
         | Some IPv4Address \<Rightarrow> Inl ValueError
         | Some IPv6Address \<Rightarrow> Inr ()))"

text \<open>The end of \<^verbatim>\<open>urlsplit\<close>: the fragment is cut at the first \<^verbatim>\<open>#\<close>, then the
  query at the first \<^verbatim>\<open>?\<close>.\<close>

definition split_tail :: "string \<Rightarrow> string \<Rightarrow> string \<Rightarrow> split_result" where
  "split_tail sch nl url =
     (let (url1, frag) = (if CHR ''#'' \<in> set url then split1 CHR ''#'' url else (url, ''''));
          (url2, qry) = (if CHR ''?'' \<in> set url1 then split1 CHR ''?'' url1 else (url1, ''''))
      in \<lparr>sr_scheme = sch, sr_netloc = nl, sr_path = url2, sr_query = qry, sr_fragment = frag\<rparr>)"

definition urlsplit :: "ip_address \<Rightarrow> string \<Rightarrow> string \<Rightarrow> error + split_result" where
  "urlsplit ipa url0 scheme0 =
     (let url1 = filter (\<lambda>c. c \<notin> set unsafe_url_bytes_to_remove)
                   (lstrip whatwg_c0_control_or_space url0);
          scheme1 = filter (\<lambda>c. c \<notin> set unsafe_url_bytes_to_remove)
                      (strip whatwg_c0_control_or_space scheme0);
          i = find CHR '':'' url1;
          (scheme2, url2) =
            (if i > 0 \<and> isascii (hd url1) \<and> isalpha_ascii (hd url1)
                \<and> list_all (\<lambda>c. c \<in> set scheme_chars) (take (nat i) url1)
             then (lower (take (nat i) url1), drop (nat i + 1) url1)
             else (scheme1, url1))
      in if take 2 url2 = ''//'' then
           (let (nl, url3) = splitnetloc url2 in
            if (CHR ''['' \<in> set nl \<and> CHR '']'' \<notin> set nl)
               \<or> (CHR '']'' \<in> set nl \<and> CHR ''['' \<notin> set nl) then Inl ValueError
            else if CHR ''['' \<in> set nl \<and> CHR '']'' \<in> set nl then
              (case check_bracketed_host ipa
                      (fst (split1 CHR '']'' (snd (split1 CHR ''['' nl)))) of
                 Inl e \<Rightarrow> Inl e
               | Inr _ \<Rightarrow> Inr (split_tail scheme2 nl url3))
            else Inr (split_tail scheme2 nl url3))
         else Inr (split_tail scheme2 '''' url2))"

text \<open>\<^verbatim>\<open>_splitparams\<close>: the parameters start at the first \<^verbatim>\<open>;\<close> of the last path
  segment. (\<^verbatim>\<open>urlparse\<close> calls it on a path with a \<^verbatim>\<open>;\<close> only; without \<^verbatim>\<open>/\<close> and
  \<^verbatim>\<open>;\<close> the index is -1 and the slices are \<^verbatim>\<open>url[:-1]\<close> and \<^verbatim>\<open>url[0:]\<close>.)\<close>

definition splitparams :: "string \<Rightarrow> string \<times> string" where
  "splitparams url =
     (if CHR ''/'' \<in> set url then
        (let r = length url - 1 - length (takeWhile (\<lambda>c. c \<noteq> CHR ''/'') (rev url))
         in if CHR '';'' \<in> set (drop r url)
            then (take r url @ takeWhile (\<lambda>c. c \<noteq> CHR '';'') (drop r url),
                  drop 1 (dropWhile (\<lambda>c. c \<noteq> CHR '';'') (drop r url)))
            else (url, ''''))
      else if CHR '';'' \<in> set url then split1 CHR '';'' url
      else (butlast url, url))"

definition urlparse :: "ip_address \<Rightarrow> string \<Rightarrow> string \<Rightarrow> error + parse_result" where
  "urlparse ipa url scheme0 =
     (case urlsplit ipa url scheme0 of
        Inl e \<Rightarrow> Inl e
      | Inr r \<Rightarrow>
          (let (url1, prm) =
                 (if sr_scheme r \<in> set uses_params \<and> CHR '';'' \<in> set (sr_path r)
                  then splitparams (sr_path r) else (sr_path r, ''''))
           in Inr \<lparr>scheme = sr_scheme r, netloc = sr_netloc r, path = url1, params = prm,
                   query = sr_query r, fragment = sr_fragment r\<rparr>))"

definition urlunsplit :: "split_result \<Rightarrow> string" where
  "urlunsplit r =
     (let url1 =
            (if sr_netloc r \<noteq> '''' \<or> (sr_scheme r \<noteq> '''' \<and> sr_scheme r \<in> set uses_netloc)
                \<or> take 2 (sr_path r) = ''//''
             then ''//'' @ sr_netloc r @
                  (if sr_path r \<noteq> '''' \<and> take 1 (sr_path r) \<noteq> ''/''
                   then ''/'' @ sr_path r else sr_path r)
             else sr_path r);
          url2 = (if sr_scheme r \<noteq> '''' then sr_scheme r @ '':'' @ url1 else url1);
          url3 = (if sr_query r \<noteq> '''' then url2 @ ''?'' @ sr_query r else url2)
      in if sr_fragment r \<noteq> '''' then url3 @ ''#'' @ sr_fragment r else url3)"

text \<open>\<^verbatim>\<open>urlunparse\<close>, which is also what \<^verbatim>\<open>geturl()\<close> of a \<^verbatim>\<open>ParseResult\<close> returns.\<close>

definition urlunparse :: "parse_result \<Rightarrow> string" where
  "urlunparse p =
     urlunsplit \<lparr>sr_scheme = scheme p, sr_netloc = netloc p,
                 sr_path = (if params p \<noteq> '''' then path p @ '';'' @ params p else path p),
                 sr_query = query p, sr_fragment = fragment p\<rparr>"

text \<open>The loop of \<^verbatim>\<open>urljoin\<close> that resolves \<^verbatim>\<open>.\<close> and \<^verbatim>\<open>..\<close> segments; a \<^verbatim>\<open>..\<close> on an
  empty list is ignored.\<close>

fun resolve_segments :: "string list \<Rightarrow> string list \<Rightarrow> string list" where
  "resolve_segments resolved_path [] = resolved_path"
| "resolve_segments resolved_path (seg # segments) =
     (if seg = ''..'' then resolve_segments (butlast resolved_path) segments
      else if seg = ''.'' then resolve_segments resolved_path segments
      else resolve_segments (resolved_path @ [seg]) segments)"

text \<open>\<^verbatim>\<open>segments[1:-1] = filter(None, segments[1:-1])\<close>.\<close>

definition filter_middle :: "string list \<Rightarrow> string list" where
  "filter_middle segments =
     (if length segments \<le> 2 then segments
      else hd segments # filter (\<lambda>x. x \<noteq> '''') (butlast (tl segments)) @ [last segments])"

definition urljoin :: "ip_address \<Rightarrow> string \<Rightarrow> string \<Rightarrow> error + string" where
  "urljoin ipa base url =
     (if base = '''' then Inr url
      else if url = '''' then Inr base
      else
        (case urlparse ipa base '''' of
           Inl e \<Rightarrow> Inl e
         | Inr b \<Rightarrow>
             (case urlparse ipa url (scheme b) of
                Inl e \<Rightarrow> Inl e
              | Inr u \<Rightarrow>
                  if scheme u \<noteq> scheme b \<or> scheme u \<notin> set uses_relative then Inr url
                  else if scheme u \<in> set uses_netloc \<and> netloc u \<noteq> '''' then Inr (urlunparse u)
                  else
                    (let nl = (if scheme u \<in> set uses_netloc then netloc b else netloc u) in
                     if path u = '''' \<and> params u = '''' then
                       Inr (urlunparse (u\<lparr>netloc := nl, path := path b, params := params b,
                              query := (if query u = '''' then query b else query u)\<rparr>))
                     else
                       (let base_parts =
                              (if last (split CHR ''/'' (path b)) \<noteq> ''''
                               then butlast (split CHR ''/'' (path b))
                               else split CHR ''/'' (path b));
                            segments =
                              (if take 1 (path u) = ''/'' then split CHR ''/'' (path u)
                               else filter_middle (base_parts @ split CHR ''/'' (path u)));
                            resolved_path =
                              resolve_segments [] segments @
                              (if last segments = ''.'' \<or> last segments = ''..''
                               then [''''] else [])
                        in Inr (urlunparse (u\<lparr>netloc := nl,
                                  path := (if join CHR ''/'' resolved_path = '''' then ''/''
                                           else join CHR ''/'' resolved_path)\<rparr>)))))))"

section \<open>The crawler of \<^verbatim>\<open>Milestone1.py\<close>\<close>

subsection \<open>\<^verbatim>\<open>get_domain\<close> and \<^verbatim>\<open>fetch_page\<close>\<close>

definition get_domain :: "ip_address \<Rightarrow> string \<Rightarrow> error + string" where
  "get_domain ipa url =
     (case urlparse ipa url '''' of Inl e \<Rightarrow> Inl e | Inr p \<Rightarrow> Inr (lower (netloc p)))"

text \<open>
  What \<^verbatim>\<open>requests.get\<close> does is not part of the program: it is a parameter \<open>get\<close>
  that either returns a response (its status code and its text) or raises a subclass of
  \<^verbatim>\<open>requests.exceptions.RequestException\<close>.
\<close>

datatype request_exception =
  ConnectionError | Timeout | SSLError | TooManyRedirects | InvalidURL | OtherRequestException

datatype http_result = Response int string | Raises request_exception

definition fetch_page :: "(string \<Rightarrow> 't \<Rightarrow> http_result) \<Rightarrow> string \<Rightarrow> 't \<Rightarrow> string option \<times> string" where
  "fetch_page get url timeout =
     (case get url timeout of
        Response status_code text \<Rightarrow>
          if status_code = 200 then (Some text, ''ok'')
          else if 500 \<le> status_code \<and> status_code < 600 then (None, ''transient'')
          else (None, ''permanent'')
      | Raises _ \<Rightarrow> (None, ''transient''))"

subsection \<open>\<^verbatim>\<open>extract_links\<close>\<close>

text \<open>
  \<^verbatim>\<open>re.findall(r'href=["\'](.*?)["\']', html)\<close>. A match starts with \<^verbatim>\<open>href=\<close> and a
  quote of either kind; the lazy group runs to the next quote of either kind and, as
  \<^verbatim>\<open>.\<close> does not match a newline, fails if a newline comes first. \<open>match_href\<close> tries
  a match at the start of the text and returns the group and the text after the match;
  the search goes on after a match, and one character further where there is none.
\<close>

definition is_quote :: "char \<Rightarrow> bool" where
  "is_quote c = (c = CHR 0x22 \<or> c = CHR 0x27)"

definition match_href :: "string \<Rightarrow> (string \<times> string) option" where
  "match_href s =
     (if startswith s ''href='' then
        (case drop 5 s of
           [] \<Rightarrow> None
         | q # t \<Rightarrow>
             if is_quote q then
               (case dropWhile (\<lambda>c. \<not> is_quote c \<and> c \<noteq> CHR 0x0A) t of
                  [] \<Rightarrow> None
                | e # rest \<Rightarrow>
                    if is_quote e
                    then Some (takeWhile (\<lambda>c. \<not> is_quote c \<and> c \<noteq> CHR 0x0A) t, rest)
                    else None)
             else None)
      else None)"

lemma match_href_shorter: "match_href s = Some (g, rest) \<Longrightarrow> length rest < length s"
proof -
  assume m: "match_href s = Some (g, rest)"
  then obtain q t where d: "drop 5 s = q # t"
    by (auto simp: match_href_def split: if_splits list.splits)
  from m d obtain e where r: "dropWhile (\<lambda>c. \<not> is_quote c \<and> c \<noteq> CHR 0x0A) t = e # rest"
    by (auto simp: match_href_def split: if_splits list.splits)
  have "length (e # rest) \<le> length t"
    unfolding r [symmetric] by (rule length_dropWhile_le)
  moreover have "length (q # t) \<le> length s"
    unfolding d [symmetric] by simp
  ultimately show ?thesis by simp
qed

function findall_href :: "string \<Rightarrow> string list" where
  "findall_href [] = []"
| "findall_href (c # cs) =
     (case match_href (c # cs) of
        Some (g, rest) \<Rightarrow> g # findall_href rest
      | None \<Rightarrow> findall_href cs)"
  by pat_completeness auto
termination
  by (relation "measure length") (auto dest: match_href_shorter)

text \<open>
  Lines 77 to 87 of \<^verbatim>\<open>extract_links\<close>, the normalisation of one link: join it with the
  base, drop the fragment, strip the trailing slashes, and keep the result only if it
  starts with \<^verbatim>\<open>http://\<close> or \<^verbatim>\<open>https://\<close> (\<open>None\<close> where the link is skipped).
\<close>

definition normalize :: "ip_address \<Rightarrow> string \<Rightarrow> string \<Rightarrow> error + string option" where
  "normalize ipa base_url link =
     (case urljoin ipa base_url link of
        Inl e \<Rightarrow> Inl e
      | Inr abs_link \<Rightarrow>
          (case urlparse ipa abs_link '''' of
             Inl e \<Rightarrow> Inl e
           | Inr p \<Rightarrow>
               (let abs_link2 = rstrip is_slash (urlunparse (p\<lparr>fragment := ''''\<rparr>))
                in if startswith abs_link2 ''http://'' \<or> startswith abs_link2 ''https://''
                   then Inr (Some abs_link2) else Inr None)))"

text \<open>
  The loop over \<^verbatim>\<open>raw_links\<close>. The set \<^verbatim>\<open>found\<close> is kept as a list without duplicates,
  in the order of insertion.
\<close>

fun extract_loop :: "ip_address \<Rightarrow> string \<Rightarrow> string list \<Rightarrow> string list \<Rightarrow> error + string list" where
  "extract_loop ipa base_url found [] = Inr found"
| "extract_loop ipa base_url found (raw # raw_links) =
     (let link = strip isspace raw in
      if link = '''' then extract_loop ipa base_url found raw_links
      else if startswith link ''#'' \<or> startswith link ''mailto:''
              \<or> startswith link ''javascript:'' \<or> startswith link ''tel:''
      then extract_loop ipa base_url found raw_links
      else
        (case normalize ipa base_url link of
           Inl e \<Rightarrow> Inl e
         | Inr None \<Rightarrow> extract_loop ipa base_url found raw_links
         | Inr (Some abs_link) \<Rightarrow>
             extract_loop ipa base_url
               (if abs_link \<in> set found then found else found @ [abs_link]) raw_links))"

text \<open>
  \<^verbatim>\<open>list(found)\<close> lists a set in an order that Python does not specify. The order is
  a parameter: a key for every string, the list sorted by it.
\<close>

definition extract_links :: "ip_address \<Rightarrow> (string \<Rightarrow> nat) \<Rightarrow> string \<Rightarrow> string \<Rightarrow> error + string list" where
  "extract_links ipa order html base_url =
     (case extract_loop ipa base_url [] (findall_href html) of
        Inl e \<Rightarrow> Inl e
      | Inr found \<Rightarrow> Inr (sort_key order found))"

subsection \<open>The state of the crawl and its environment\<close>

text \<open>
  The module's constants are a record \<open>config\<close> (\<^verbatim>\<open>retry_delay\<close> only feeds
  \<^verbatim>\<open>time.sleep\<close> and is left out). What the program cannot decide is a record \<open>world\<close>:
  the answer to the \<open>n\<close>-th request for a URL, whether a file can be written, whether
  the directory can be made, the order in which the set of links is listed after the
  \<open>n\<close>-th request, and \<^verbatim>\<open>ipaddress.ip_address\<close>.
\<close>

datatype file_name = PageFile int | VisitedFile

record config =
  seed_url :: string
  max_pages :: int
  max_retries :: int

record world =
  requests_get :: "nat \<Rightarrow> string \<Rightarrow> int \<Rightarrow> http_result"
  write_file :: "file_name \<Rightarrow> string \<Rightarrow> bool"
  makedirs :: bool
  set_order :: "nat \<Rightarrow> string \<Rightarrow> nat"
  ip_addr :: ip_address

text \<open>
  The module's variables, with the number of requests sent so far and the files written
  so far.
\<close>

record crawl_state =
  seed_domain :: string
  queue :: "string list"
  visited :: "string list"
  visited_set :: "string set"
  retries :: "string \<rightharpoonup> int"
  failed :: "string set"
  page_id :: int
  requests :: nat
  files :: "file_name \<rightharpoonup> string"

definition initial_state :: "config \<Rightarrow> string \<Rightarrow> crawl_state" where
  "initial_state cfg domain =
     \<lparr>seed_domain = domain, queue = [rstrip is_slash (seed_url cfg)], visited = [],
      visited_set = {}, retries = Map.empty, failed = {}, page_id = 1, requests = 0,
      files = Map.empty\<rparr>"

text \<open>\<^verbatim>\<open>retries.get(url, 0)\<close>.\<close>

definition retries_get :: "(string \<rightharpoonup> int) \<Rightarrow> string \<Rightarrow> int" where
  "retries_get r url = (case r url of None \<Rightarrow> 0 | Some c \<Rightarrow> c)"

text \<open>Lines 139 to 143: the links of the seed's domain that are neither visited nor
  queued go to the end of the queue.\<close>

fun enqueue_links :: "ip_address \<Rightarrow> string list \<Rightarrow> crawl_state \<Rightarrow> error + crawl_state" where
  "enqueue_links ipa [] s = Inr s"
| "enqueue_links ipa (link # links) s =
     (case get_domain ipa link of
        Inl e \<Rightarrow> Inl e
      | Inr d \<Rightarrow>
          if d \<noteq> seed_domain s then enqueue_links ipa links s
          else if link \<notin> visited_set s \<and> link \<notin> set (queue s)
          then enqueue_links ipa links (s\<lparr>queue := queue s @ [link]\<rparr>)
          else enqueue_links ipa links s)"

text \<open>
  One turn of the \<^verbatim>\<open>while\<close> loop, lines 115 to 163. An exception that the program does
  not catch ends the run: \<^verbatim>\<open>OSError\<close> when the page cannot be written, \<^verbatim>\<open>ValueError\<close>
  from \<^verbatim>\<open>urllib.parse\<close>, \<^verbatim>\<open>IndexError\<close> from \<^verbatim>\<open>pop\<close> on an empty queue.
\<close>

definition crawl_step :: "config \<Rightarrow> world \<Rightarrow> crawl_state \<Rightarrow> error + crawl_state" where
  "crawl_step cfg w s =
     (case queue s of
        [] \<Rightarrow> Inl IndexError
      | url # rest \<Rightarrow>
          if url \<in> visited_set s then Inr (s\<lparr>queue := rest\<rparr>)
          else
            (case fetch_page (requests_get w (requests s)) url 5 of
               (html, status) \<Rightarrow>
                 if status = ''ok'' \<and> html \<noteq> None then
                   (if \<not> write_file w (PageFile (page_id s)) (the html) then Inl OSError
                    else
                      (case extract_links (ip_addr w) (set_order w (requests s)) (the html) url of
                         Inl e \<Rightarrow> Inl e
                       | Inr links \<Rightarrow>
                           enqueue_links (ip_addr w) links
                             (s\<lparr>queue := rest, requests := Suc (requests s),
                                files := (files s)(PageFile (page_id s) \<mapsto> the html),
                                page_id := page_id s + 1,
                                visited := visited s @ [url],
                                visited_set := insert url (visited_set s)\<rparr>)))
                 else if status = ''transient'' then
                   (let count = retries_get (retries s) url + 1 in
                    if count \<le> max_retries cfg
                    then Inr (s\<lparr>queue := rest @ [url], requests := Suc (requests s),
                                 retries := (retries s)(url \<mapsto> count)\<rparr>)
                    else Inr (s\<lparr>queue := rest, requests := Suc (requests s),
                                 failed := insert url (failed s)\<rparr>))
                 else Inr (s\<lparr>queue := rest, requests := Suc (requests s),
                              failed := insert url (failed s)\<rparr>)))"

text \<open>The condition of the loop, line 112.\<close>

definition running :: "config \<Rightarrow> crawl_state \<Rightarrow> bool" where
  "running cfg s = (queue s \<noteq> [] \<and> int (length (visited s)) < max_pages cfg)"

subsection \<open>The loop ends\<close>

text \<open>
  Two numbers order the states: the pages still allowed, and the fetches the queue can
  still cause, one for each queued URL and one more for each retry it has left.
\<close>

definition budget :: "config \<Rightarrow> crawl_state \<Rightarrow> nat" where
  "budget cfg s = nat (max_pages cfg - int (length (visited s)))"

definition attempts_left :: "config \<Rightarrow> (string \<rightharpoonup> int) \<Rightarrow> string \<Rightarrow> nat" where
  "attempts_left cfg r url = Suc (nat (max_retries cfg - retries_get r url))"

definition pending :: "config \<Rightarrow> crawl_state \<Rightarrow> nat" where
  "pending cfg s = sum_list (map (attempts_left cfg (retries s)) (queue s))"

lemma enqueue_links_keeps:
  "enqueue_links ipa links s = Inr s' \<Longrightarrow>
     visited s' = visited s \<and> visited_set s' = visited_set s \<and> retries s' = retries s
     \<and> failed s' = failed s \<and> page_id s' = page_id s \<and> requests s' = requests s
     \<and> files s' = files s \<and> seed_domain s' = seed_domain s"
proof (induction links arbitrary: s)
  case Nil
  then show ?case by simp
next
  case (Cons link links)
  then show ?case
    by (fastforce split: sum.splits if_splits)
qed

lemma attempts_left_retry:
  "retries_get r url + 1 \<le> max_retries cfg \<Longrightarrow>
     attempts_left cfg (r(url \<mapsto> retries_get r url + 1)) v \<le> attempts_left cfg r v"
  by (auto simp: attempts_left_def retries_get_def split: option.splits)

lemma attempts_left_retry_self:
  "retries_get r url + 1 \<le> max_retries cfg \<Longrightarrow>
     attempts_left cfg (r(url \<mapsto> retries_get r url + 1)) url < attempts_left cfg r url"
  by (auto simp: attempts_left_def retries_get_def split: option.splits)

lemma sum_list_map_mono:
  "(\<And>x. f x \<le> (g x :: nat)) \<Longrightarrow> sum_list (map f xs) \<le> sum_list (map g xs)"
  by (induction xs) (auto intro: add_mono)

lemma crawl_step_decreases:
  assumes "running cfg s" and "crawl_step cfg w s = Inr s'"
  shows "budget cfg s' < budget cfg s
         \<or> (budget cfg s' = budget cfg s \<and> pending cfg s' < pending cfg s)"
proof -
  from assms(1) obtain url rest where q: "queue s = url # rest"
    by (cases "queue s") (auto simp: running_def)
  from assms(1) have lt: "int (length (visited s)) < max_pages cfg"
    by (simp add: running_def)
  show ?thesis
  proof (cases "url \<in> visited_set s")
    case True
    with assms(2) q have "s' = s\<lparr>queue := rest\<rparr>"
      by (simp add: crawl_step_def)
    then show ?thesis
      using q by (simp add: budget_def pending_def attempts_left_def)
  next
    case False
    obtain html status where f: "fetch_page (requests_get w (requests s)) url 5 = (html, status)"
      by (cases "fetch_page (requests_get w (requests s)) url (5::int)") auto
    show ?thesis
    proof (cases "status = ''ok'' \<and> html \<noteq> None")
      case True
      with assms(2) q False f obtain links s0 where
        e: "enqueue_links (ip_addr w) links s0 = Inr s'" and
        v: "visited s0 = visited s @ [url]"
        by (auto simp: crawl_step_def split: if_splits sum.splits)
      from enqueue_links_keeps [OF e] v have "visited s' = visited s @ [url]"
        by simp
      with lt show ?thesis
        by (simp add: budget_def)
    next
      case nok: False
      show ?thesis
      proof (cases "status = ''transient'' \<and> retries_get (retries s) url + 1 \<le> max_retries cfg")
        case True
        with assms(2) q False f nok have s': "s' = s\<lparr>queue := rest @ [url],
            requests := Suc (requests s),
            retries := (retries s)(url \<mapsto> retries_get (retries s) url + 1)\<rparr>"
          by (auto simp: crawl_step_def Let_def)
        have "sum_list (map (attempts_left cfg ((retries s)(url \<mapsto> retries_get (retries s) url + 1))) rest)
                \<le> sum_list (map (attempts_left cfg (retries s)) rest)"
          using True by (intro sum_list_map_mono attempts_left_retry) simp
        moreover have "attempts_left cfg ((retries s)(url \<mapsto> retries_get (retries s) url + 1)) url
                < attempts_left cfg (retries s) url"
          using True by (intro attempts_left_retry_self) simp
        ultimately show ?thesis
          using q s' by (simp add: budget_def pending_def)
      next
        case False
        with assms(2) q \<open>url \<notin> visited_set s\<close> f nok
        have "s' = s\<lparr>queue := rest, requests := Suc (requests s),
                       failed := insert url (failed s)\<rparr>"
          by (auto simp: crawl_step_def Let_def split: if_splits)
        then show ?thesis
          using q by (simp add: budget_def pending_def attempts_left_def)
      qed
    qed
  qed
qed

text \<open>The \<^verbatim>\<open>while\<close> loop, lines 112 to 163.\<close>

function crawl_loop :: "config \<Rightarrow> world \<Rightarrow> crawl_state \<Rightarrow> error + crawl_state" where
  "crawl_loop cfg w s =
     (if running cfg s then
        (case crawl_step cfg w s of
           Inl e \<Rightarrow> Inl e
         | Inr s' \<Rightarrow> crawl_loop cfg w s')
      else Inr s)"
  by pat_completeness auto
termination
proof (relation "inv_image (less_than <*lex*> less_than)
                   (\<lambda>(cfg, w, s). (budget cfg s, pending cfg s))")
  show "wf (inv_image (less_than <*lex*> less_than)
              (\<lambda>(cfg, w, s). (budget cfg s, pending cfg s)))"
    by (intro wf_inv_image wf_lex_prod wf_less_than)
next
  fix cfg w s s'
  assume "running cfg s" and "crawl_step cfg w s = Inr s'"
  from crawl_step_decreases [OF this]
  show "((cfg, w, s'), (cfg, w, s))
          \<in> inv_image (less_than <*lex*> less_than)
              (\<lambda>(cfg, w, s). (budget cfg s, pending cfg s))"
    by auto
qed

declare crawl_loop.simps [simp del]

text \<open>
  The head of the loop after at most \<open>n\<close> turns: \<open>crawl_iter n\<close> runs the loop for \<open>n\<close>
  turns, or fewer if it ends before. It gives the states the loop passes through, and
  counts the turns of a run.
\<close>

fun crawl_iter :: "nat \<Rightarrow> config \<Rightarrow> world \<Rightarrow> crawl_state \<Rightarrow> error + crawl_state" where
  "crawl_iter 0 cfg w s = Inr s"
| "crawl_iter (Suc n) cfg w s =
     (if running cfg s then
        (case crawl_step cfg w s of
           Inl e \<Rightarrow> Inl e
         | Inr s' \<Rightarrow> crawl_iter n cfg w s')
      else Inr s)"

text \<open>
  The whole script: make the directory, take the seed's domain, run the loop, write
  \<^verbatim>\<open>visited.txt\<close> and print the summary (the line of failed URLs only if there are
  any; the time taken is left out).
\<close>

record summary =
  total_pages_crawled :: nat
  final_queue_size :: nat
  failed_urls :: "nat option"

definition manifest :: "string list \<Rightarrow> string" where
  "manifest us = concat (map (\<lambda>u. u @ [CHR 0x0A]) us)"

definition run :: "config \<Rightarrow> world \<Rightarrow> error + crawl_state \<times> summary" where
  "run cfg w =
     (if \<not> makedirs w then Inl OSError
      else
        (case get_domain (ip_addr w) (seed_url cfg) of
           Inl e \<Rightarrow> Inl e
         | Inr domain \<Rightarrow>
             (case crawl_loop cfg w (initial_state cfg domain) of
                Inl e \<Rightarrow> Inl e
              | Inr s \<Rightarrow>
                  if \<not> write_file w VisitedFile (manifest (visited s)) then Inl OSError
                  else Inr (s\<lparr>files := (files s)(VisitedFile \<mapsto> manifest (visited s))\<rparr>,
                            \<lparr>total_pages_crawled = length (visited s),
                             final_queue_size = length (queue s),
                             failed_urls = (if failed s \<noteq> {} then Some (card (failed s))
                                            else None)\<rparr>))))"

section \<open>Runs of the loop\<close>

text \<open>A run has ended when it has raised an exception or the condition of the loop is
  false.\<close>

definition finished :: "config \<Rightarrow> error + crawl_state \<Rightarrow> bool" where
  "finished cfg r = (case r of Inl e \<Rightarrow> True | Inr s \<Rightarrow> \<not> running cfg s)"

lemma crawl_iter_stopped: "\<not> running cfg s \<Longrightarrow> crawl_iter n cfg w s = Inr s"
  by (cases n) simp_all

lemma crawl_loop_is_iter:
  "\<exists>n. finished cfg (crawl_iter n cfg w s) \<and> crawl_loop cfg w s = crawl_iter n cfg w s"
proof (induction cfg w s rule: crawl_loop.induct)
  case (1 cfg w s)
  show ?case
  proof (cases "running cfg s")
    case False
    then have "finished cfg (crawl_iter 0 cfg w s) \<and> crawl_loop cfg w s = crawl_iter 0 cfg w s"
      by (simp add: finished_def crawl_loop.simps)
    then show ?thesis by blast
  next
    case True
    show ?thesis
    proof (cases "crawl_step cfg w s")
      case (Inl e)
      with True have "finished cfg (crawl_iter 1 cfg w s) \<and> crawl_loop cfg w s = crawl_iter 1 cfg w s"
        by (simp add: finished_def crawl_loop.simps [of cfg w s])
      then show ?thesis by blast
    next
      case (Inr s')
      from "1.IH" [OF True Inr] obtain n where
        n: "finished cfg (crawl_iter n cfg w s')" "crawl_loop cfg w s' = crawl_iter n cfg w s'"
        by blast
      with True Inr have "finished cfg (crawl_iter (Suc n) cfg w s)
          \<and> crawl_loop cfg w s = crawl_iter (Suc n) cfg w s"
        by (simp add: crawl_loop.simps [of cfg w s])
      then show ?thesis by blast
    qed
  qed
qed

lemma crawl_step_visited:
  "crawl_step cfg w s = Inr s' \<Longrightarrow>
     visited s' = visited s \<or> (\<exists>url. visited s' = visited s @ [url])"
  by (auto simp: crawl_step_def Let_def split: list.splits if_splits prod.splits sum.splits
        dest!: enqueue_links_keeps)

lemma crawl_step_bound:
  assumes "running cfg s" and "crawl_step cfg w s = Inr s'"
  shows "int (length (visited s')) \<le> max_pages cfg"
  using crawl_step_visited [OF assms(2)] assms(1) by (auto simp: running_def)

lemma crawl_iter_bound:
  "int (length (visited s)) \<le> max_pages cfg \<Longrightarrow> crawl_iter n cfg w s = Inr s' \<Longrightarrow>
     int (length (visited s')) \<le> max_pages cfg"
proof (induction n arbitrary: s)
  case 0
  then show ?case by simp
next
  case (Suc n)
  show ?case
  proof (cases "running cfg s")
    case False
    with Suc.prems show ?thesis by simp
  next
    case True
    with Suc.prems(2) obtain s1 where s1: "crawl_step cfg w s = Inr s1" "crawl_iter n cfg w s1 = Inr s'"
      by (auto split: sum.splits)
    from crawl_step_bound [OF True s1(1)] s1(2) show ?thesis
      by (rule Suc.IH)
  qed
qed

subsection \<open>What every turn keeps\<close>

text \<open>The queue holds no URL twice and none that is visited; \<^verbatim>\<open>visited_set\<close> is the set
  of the list \<^verbatim>\<open>visited\<close>, which holds no URL twice.\<close>

definition frontier_inv :: "crawl_state \<Rightarrow> bool" where
  "frontier_inv s =
     (distinct (queue s) \<and> set (queue s) \<inter> set (visited s) = {}
      \<and> visited_set s = set (visited s) \<and> distinct (visited s))"

lemma enqueue_links_inv:
  "enqueue_links ipa links s = Inr s' \<Longrightarrow> frontier_inv s \<Longrightarrow> frontier_inv s'"
proof (induction links arbitrary: s)
  case Nil
  then show ?case by simp
next
  case (Cons link links)
  show ?case
  proof (cases "get_domain ipa link")
    case (Inl e)
    with Cons.prems show ?thesis by simp
  next
    case (Inr d)
    show ?thesis
    proof (cases "d = seed_domain s \<and> link \<notin> visited_set s \<and> link \<notin> set (queue s)")
      case True
      with Cons.prems(1) Inr
      have e: "enqueue_links ipa links (s\<lparr>queue := queue s @ [link]\<rparr>) = Inr s'"
        by simp
      from True Cons.prems(2) have "frontier_inv (s\<lparr>queue := queue s @ [link]\<rparr>)"
        by (auto simp: frontier_inv_def)
      with e show ?thesis by (rule Cons.IH)
    next
      case False
      with Cons.prems(1) Inr have "enqueue_links ipa links s = Inr s'"
        by (auto split: if_splits)
      then show ?thesis using Cons.prems(2) by (rule Cons.IH)
    qed
  qed
qed

lemma crawl_step_inv:
  assumes "crawl_step cfg w s = Inr s'" and "frontier_inv s"
  shows "frontier_inv s'"
proof -
  from assms(1) obtain url rest where q: "queue s = url # rest"
    by (cases "queue s") (auto simp: crawl_step_def)
  from assms(2) q have nv: "url \<notin> visited_set s" and nr: "url \<notin> set rest"
    by (auto simp: frontier_inv_def)
  obtain html status where f: "fetch_page (requests_get w (requests s)) url 5 = (html, status)"
    by (cases "fetch_page (requests_get w (requests s)) url (5::int)") auto
  show ?thesis
  proof (cases "status = ''ok'' \<and> html \<noteq> None")
    case True
    with assms(1) q nv f obtain links where
      e: "enqueue_links (ip_addr w) links
            (s\<lparr>queue := rest, requests := Suc (requests s),
               files := (files s)(PageFile (page_id s) \<mapsto> the html),
               page_id := page_id s + 1,
               visited := visited s @ [url],
               visited_set := insert url (visited_set s)\<rparr>) = Inr s'"
      by (auto simp: crawl_step_def split: if_splits sum.splits)
    have "frontier_inv (s\<lparr>queue := rest, requests := Suc (requests s),
               files := (files s)(PageFile (page_id s) \<mapsto> the html),
               page_id := page_id s + 1,
               visited := visited s @ [url],
               visited_set := insert url (visited_set s)\<rparr>)"
      using assms(2) q by (auto simp: frontier_inv_def)
    with e show ?thesis by (rule enqueue_links_inv)
  next
    case False
    with assms(1) q nv f
    have "queue s' = rest @ [url] \<or> queue s' = rest"
      and "visited s' = visited s" and "visited_set s' = visited_set s"
      by (auto simp: crawl_step_def Let_def split: if_splits)
    with assms(2) q show ?thesis
      by (auto simp: frontier_inv_def)
  qed
qed

lemma initial_state_inv: "frontier_inv (initial_state cfg d)"
  by (simp add: frontier_inv_def initial_state_def)

lemma crawl_iter_inv:
  "frontier_inv s \<Longrightarrow> crawl_iter n cfg w s = Inr s' \<Longrightarrow> frontier_inv s'"
proof (induction n arbitrary: s)
  case 0
  then show ?case by simp
next
  case (Suc n)
  show ?case
  proof (cases "running cfg s")
    case False
    with Suc.prems show ?thesis by simp
  next
    case True
    with Suc.prems(2) obtain s1 where s1: "crawl_step cfg w s = Inr s1" "crawl_iter n cfg w s1 = Inr s'"
      by (auto split: sum.splits)
    from crawl_step_inv [OF s1(1) Suc.prems(1)] s1(2) show ?thesis
      by (rule Suc.IH)
  qed
qed

subsection \<open>Counting turns\<close>

lemma crawl_loop_of_iter:
  "finished cfg (crawl_iter n cfg w s) \<Longrightarrow> crawl_loop cfg w s = crawl_iter n cfg w s"
proof (induction n arbitrary: s)
  case 0
  then show ?case by (simp add: finished_def crawl_loop.simps)
next
  case (Suc n)
  show ?case
  proof (cases "running cfg s")
    case False
    then show ?thesis by (simp add: crawl_loop.simps)
  next
    case True
    show ?thesis
    proof (cases "crawl_step cfg w s")
      case (Inl e)
      with True show ?thesis by (simp add: crawl_loop.simps [of cfg w s])
    next
      case (Inr s')
      with True Suc.prems have "finished cfg (crawl_iter n cfg w s')" by simp
      then have "crawl_loop cfg w s' = crawl_iter n cfg w s'" by (rule Suc.IH)
      with True Inr show ?thesis by (simp add: crawl_loop.simps [of cfg w s])
    qed
  qed
qed

lemma crawl_iter_Suc_end:
  "crawl_iter n cfg w s = Inr s1 \<Longrightarrow>
     crawl_iter (Suc n) cfg w s = (if running cfg s1 then crawl_step cfg w s1 else Inr s1)"
proof (induction n arbitrary: s)
  case 0
  then show ?case by (auto split: sum.splits)
next
  case (Suc n)
  show ?case
  proof (cases "running cfg s")
    case False
    with Suc.prems show ?thesis by simp
  next
    case True
    with Suc.prems obtain s' where s': "crawl_step cfg w s = Inr s'" "crawl_iter n cfg w s' = Inr s1"
      by (auto split: sum.splits)
    from Suc.IH [OF s'(2)] True s'(1) show ?thesis by simp
  qed
qed







lemma crawl_loop_bound:
  assumes "int (length (visited s)) \<le> max_pages cfg" and "crawl_loop cfg w s = Inr s'"
  shows "int (length (visited s')) \<le> max_pages cfg"
proof -
  from crawl_loop_is_iter [of cfg w s] obtain n where "crawl_loop cfg w s = crawl_iter n cfg w s"
    by blast
  with assms(2) have "crawl_iter n cfg w s = Inr s'" by simp
  with assms(1) show ?thesis by (rule crawl_iter_bound)
qed



lemma crawl_loop_after_iter:
  "crawl_iter n cfg w s = Inr s1 \<Longrightarrow> crawl_loop cfg w s = crawl_loop cfg w s1"
proof (induction n arbitrary: s)
  case 0
  then show ?case by simp
next
  case (Suc n)
  show ?case
  proof (cases "running cfg s")
    case False
    with Suc.prems show ?thesis by simp
  next
    case True
    with Suc.prems obtain s' where s': "crawl_step cfg w s = Inr s'" "crawl_iter n cfg w s' = Inr s1"
      by (auto split: sum.splits)
    from Suc.IH [OF s'(2)] True s'(1) show ?thesis
      by (simp add: crawl_loop.simps [of cfg w s])
  qed
qed

lemma crawl_loop_inv:
  assumes "frontier_inv s" and "crawl_loop cfg w s = Inr s'"
  shows "frontier_inv s'"
proof -
  from crawl_loop_is_iter [of cfg w s] obtain n where "crawl_loop cfg w s = crawl_iter n cfg w s"
    by blast
  with assms(2) have "crawl_iter n cfg w s = Inr s'" by simp
  with assms(1) show ?thesis by (rule crawl_iter_inv)
qed

lemma crawl_step_newly_failed:
  assumes "frontier_inv s" and "crawl_step cfg w s = Inr s'"
    and "u \<in> failed s'" and "u \<notin> failed s"
  shows "u \<notin> set (queue s') \<and> u \<notin> set (visited s')"
proof -
  from assms(2) obtain url rest where q: "queue s = url # rest"
    by (cases "queue s") (auto simp: crawl_step_def)
  from assms(1) q have nv: "url \<notin> visited_set s" "url \<notin> set (visited s)" and nr: "url \<notin> set rest"
    by (auto simp: frontier_inv_def)
  from assms(2,3,4) q nv(1) have "u = url \<and> queue s' = rest \<and> visited s' = visited s"
    by (auto simp: crawl_step_def Let_def split: if_splits prod.splits sum.splits
          dest!: enqueue_links_keeps)
  with nv nr show ?thesis by simp
qed

lemma crawl_step_write_fails:
  assumes "queue s = url # rest" and "url \<notin> visited_set s"
    and "requests_get w (requests s) url 5 = Response 200 html"
    and "\<not> write_file w (PageFile (page_id s)) html"
  shows "crawl_step cfg w s = Inl OSError"
  using assms by (simp add: crawl_step_def fetch_page_def)

section \<open>URLs that normalisation leaves alone\<close>

text \<open>The check that \<^verbatim>\<open>urlsplit\<close> makes of the brackets of a host: none, or a pair
  around an address that \<^verbatim>\<open>_check_bracketed_host\<close> accepts.\<close>

definition netloc_checked :: "ip_address \<Rightarrow> string \<Rightarrow> bool" where
  "netloc_checked ipa nl =
     (if CHR ''['' \<in> set nl \<and> CHR '']'' \<in> set nl
      then check_bracketed_host ipa (fst (split1 CHR '']'' (snd (split1 CHR ''['' nl)))) = Inr ()
      else CHR ''['' \<notin> set nl \<and> CHR '']'' \<notin> set nl)"

lemma check_bracketed_host_error:
  "check_bracketed_host ipa h = Inl e \<Longrightarrow> e = ValueError"
  by (auto simp: check_bracketed_host_def split: if_splits option.splits ip_kind.splits)

lemma urlsplit_http:
  assumes "sch = ''http'' \<or> sch = ''https''"
    and "list_all (\<lambda>c. c \<notin> set unsafe_url_bytes_to_remove) r"
  shows "urlsplit ipa (sch @ ''://'' @ r) d =
     (if netloc_checked ipa (takeWhile (\<lambda>c. c \<notin> set ''/?#'') r)
      then Inr (split_tail sch (takeWhile (\<lambda>c. c \<notin> set ''/?#'') r)
                  (dropWhile (\<lambda>c. c \<notin> set ''/?#'') r))
      else Inl ValueError)"
proof -
  have f: "filter (\<lambda>c. c \<notin> set unsafe_url_bytes_to_remove) r = r"
    using assms(2) by (simp add: filter_id_conv list_all_iff)
  from assms(1) show ?thesis
  proof
    assume "sch = ''http''"
    then show ?thesis
      using f
      by (auto simp: urlsplit_def lstrip_def whatwg_c0_control_or_space_def code_def
          unsafe_url_bytes_to_remove_def find_def isascii_def isalpha_ascii_def
          scheme_chars_def lower_def lower_char_def splitnetloc_def netloc_checked_def Let_def
          split: sum.splits unit.splits dest: check_bracketed_host_error)
  next
    assume "sch = ''https''"
    then show ?thesis
      using f
      by (auto simp: urlsplit_def lstrip_def whatwg_c0_control_or_space_def code_def
          unsafe_url_bytes_to_remove_def find_def isascii_def isalpha_ascii_def
          scheme_chars_def lower_def lower_char_def splitnetloc_def netloc_checked_def Let_def
          split: sum.splits unit.splits dest: check_bracketed_host_error)
  qed
qed

lemma split_at_first:
  "c \<in> set xs \<Longrightarrow> takeWhile (\<lambda>x. x \<noteq> c) xs @ c # drop (Suc 0) (dropWhile (\<lambda>x. x \<noteq> c) xs) = xs"
  by (induction xs) auto

lemma split_at_first_end:
  "c \<in> set xs \<Longrightarrow> drop (Suc 0) (dropWhile (\<lambda>x. x \<noteq> c) xs) = [] \<Longrightarrow> last xs = c"
  by (induction xs) (auto split: if_splits)

lemma split_absent:
  "c \<notin> set xs \<Longrightarrow> takeWhile (\<lambda>x. x \<noteq> c) xs = xs \<and> dropWhile (\<lambda>x. x \<noteq> c) xs = []"
  by (induction xs) auto

text \<open>Joining what \<open>splitparams\<close> has split gives the path back, unless the path ends
  with the semicolon.\<close>

lemma splitparams_join:
  assumes "pth = [] \<or> last pth \<noteq> CHR '';''" and "CHR '';'' \<in> set pth"
  shows "(if snd (splitparams pth) \<noteq> '''' then fst (splitparams pth) @ '';'' @ snd (splitparams pth)
          else fst (splitparams pth)) = pth"
proof (cases "CHR ''/'' \<in> set pth")
  case False
  from assms have "drop (Suc 0) (dropWhile (\<lambda>x. x \<noteq> CHR '';'') pth) \<noteq> []"
    by (auto dest: split_at_first_end)
  with False assms(2) show ?thesis
    by (simp add: splitparams_def split1_def split_at_first)
next
  case True
  define r where "r = length pth - 1 - length (takeWhile (\<lambda>c. c \<noteq> CHR ''/'') (rev pth))"
  have sp: "splitparams pth =
      (if CHR '';'' \<in> set (drop r pth)
       then (take r pth @ takeWhile (\<lambda>c. c \<noteq> CHR '';'') (drop r pth),
             drop (Suc 0) (dropWhile (\<lambda>c. c \<noteq> CHR '';'') (drop r pth)))
       else (pth, []))"
    using True unfolding splitparams_def r_def Let_def by simp
  show ?thesis
  proof (cases "CHR '';'' \<in> set (drop r pth)")
    case False
    then show ?thesis
      by (simp add: sp)
  next
    case in_seg: True
    then have ne: "drop r pth \<noteq> []" by auto
    then have "last (drop r pth) = last pth" by simp
    with assms in_seg have "drop (Suc 0) (dropWhile (\<lambda>x. x \<noteq> CHR '';'') (drop r pth)) \<noteq> []"
      by (auto dest: split_at_first_end)
    moreover have "take r pth @ takeWhile (\<lambda>c. c \<noteq> CHR '';'') (drop r pth) @ '';'' @
              drop (Suc 0) (dropWhile (\<lambda>c. c \<noteq> CHR '';'') (drop r pth)) = pth"
      using split_at_first [OF in_seg] by simp
    ultimately show ?thesis
      using in_seg by (simp add: sp)
  qed
qed

text \<open>
  The URLs that come back unchanged from \<^verbatim>\<open>urlparse\<close> and \<^verbatim>\<open>geturl\<close>: scheme \<^verbatim>\<open>http\<close> or
  \<^verbatim>\<open>https\<close>, a host that is not empty and passes the check of its brackets, no \<^verbatim>\<open>#\<close>, tab,
  carriage return or newline, no \<^verbatim>\<open>?\<close> with nothing after it, and a path that does not
  end with \<^verbatim>\<open>;\<close>.
\<close>

definition after_scheme :: "string \<Rightarrow> string" where
  "after_scheme u = (if startswith u ''http://'' then drop 7 u else drop 8 u)"

definition url_host :: "string \<Rightarrow> string" where
  "url_host u = takeWhile (\<lambda>c. c \<notin> set ''/?#'') (after_scheme u)"

definition url_tail :: "string \<Rightarrow> string" where
  "url_tail u = dropWhile (\<lambda>c. c \<notin> set ''/?#'') (after_scheme u)"

definition url_path :: "string \<Rightarrow> string" where
  "url_path u = takeWhile (\<lambda>c. c \<noteq> CHR ''?'') (url_tail u)"

definition url_query :: "string \<Rightarrow> string" where
  "url_query u = drop 1 (dropWhile (\<lambda>c. c \<noteq> CHR ''?'') (url_tail u))"

definition stable_url :: "ip_address \<Rightarrow> string \<Rightarrow> bool" where
  "stable_url ipa u =
     ((startswith u ''http://'' \<or> startswith u ''https://'')
      \<and> list_all (\<lambda>c. c \<notin> set (CHR ''#'' # unsafe_url_bytes_to_remove)) u
      \<and> url_host u \<noteq> '''' \<and> netloc_checked ipa (url_host u)
      \<and> (CHR ''?'' \<in> set (url_tail u) \<and> url_query u \<noteq> '''' \<or> CHR ''?'' \<notin> set (url_tail u))
      \<and> (url_path u = '''' \<or> last (url_path u) \<noteq> CHR '';''))"

lemma split_tail_plain:
  assumes "CHR ''#'' \<notin> set tail"
  shows "split_tail sch nl tail
           = \<lparr>sr_scheme = sch, sr_netloc = nl,
              sr_path = takeWhile (\<lambda>c. c \<noteq> CHR ''?'') tail,
              sr_query = drop (Suc 0) (dropWhile (\<lambda>c. c \<noteq> CHR ''?'') tail),
              sr_fragment = ''''\<rparr>"
  using assms by (simp add: split_tail_def split1_def split_absent)

lemma urlparse_stable:
  assumes sch: "sch = ''http'' \<or> sch = ''https''"
    and clean: "list_all (\<lambda>c. c \<notin> set (CHR ''#'' # unsafe_url_bytes_to_remove)) r"
    and host: "takeWhile (\<lambda>c. c \<notin> set ''/?#'') r \<noteq> ''''"
      "netloc_checked ipa (takeWhile (\<lambda>c. c \<notin> set ''/?#'') r)"
    and qry: "CHR ''?'' \<in> set (dropWhile (\<lambda>c. c \<notin> set ''/?#'') r)
               \<and> drop (Suc 0) (dropWhile (\<lambda>c. c \<noteq> CHR ''?'') (dropWhile (\<lambda>c. c \<notin> set ''/?#'') r)) \<noteq> ''''
             \<or> CHR ''?'' \<notin> set (dropWhile (\<lambda>c. c \<notin> set ''/?#'') r)"
    and pth: "takeWhile (\<lambda>c. c \<noteq> CHR ''?'') (dropWhile (\<lambda>c. c \<notin> set ''/?#'') r) = ''''
             \<or> last (takeWhile (\<lambda>c. c \<noteq> CHR ''?'') (dropWhile (\<lambda>c. c \<notin> set ''/?#'') r)) \<noteq> CHR '';''"
  shows "\<exists>p. urlparse ipa (sch @ ''://'' @ r) d = Inr p
           \<and> urlunparse p = sch @ ''://'' @ r
           \<and> scheme p = sch \<and> netloc p = takeWhile (\<lambda>c. c \<notin> set ''/?#'') r
           \<and> fragment p = ''''"
proof -
  define nl where "nl = takeWhile (\<lambda>c. c \<notin> set ''/?#'') r"
  define tail where "tail = dropWhile (\<lambda>c. c \<notin> set ''/?#'') r"
  define pt where "pt = takeWhile (\<lambda>c. c \<noteq> CHR ''?'') tail"
  define qr where "qr = drop (Suc 0) (dropWhile (\<lambda>c. c \<noteq> CHR ''?'') tail)"
  define pp where "pp = (if CHR '';'' \<in> set pt then splitparams pt else (pt, ''''))"
  have r: "r = nl @ tail" by (simp add: nl_def tail_def)
  from clean have unsafe: "list_all (\<lambda>c. c \<notin> set unsafe_url_bytes_to_remove) r"
    and nohash: "CHR ''#'' \<notin> set r"
    by (auto simp: list_all_iff)
  from nohash have th: "CHR ''#'' \<notin> set tail"
    by (auto simp: tail_def dest: set_dropWhileD)
  have sp: "urlsplit ipa (sch @ ''://'' @ r) d
              = Inr \<lparr>sr_scheme = sch, sr_netloc = nl, sr_path = pt, sr_query = qr,
                     sr_fragment = ''''\<rparr>"
  proof -
    have "urlsplit ipa (sch @ ''://'' @ r) d = Inr (split_tail sch nl tail)"
      unfolding nl_def tail_def using host(2)
      by (simp only: urlsplit_http [OF sch unsafe] if_True)
    then show ?thesis
      by (simp only: split_tail_plain [OF th] pt_def qr_def)
  qed
  have up: "sch \<in> set uses_params" and un: "sch \<in> set uses_netloc" and ne: "sch \<noteq> ''''"
    using sch by (auto simp: uses_params_def uses_netloc_def)
  let ?p = "\<lparr>scheme = sch, netloc = nl, path = fst pp, params = snd pp, query = qr,
             fragment = ''''\<rparr>"
  have parse: "urlparse ipa (sch @ ''://'' @ r) d = Inr ?p"
    unfolding urlparse_def sp using up by (simp add: pp_def Let_def case_prod_beta)
  have joined: "(if snd pp \<noteq> '''' then fst pp @ '';'' @ snd pp else fst pp) = pt"
  proof (cases "CHR '';'' \<in> set pt")
    case True
    have "pt = [] \<or> last pt \<noteq> CHR '';''"
      using pth unfolding pt_def tail_def .
    from splitparams_join [OF this True] True show ?thesis
      by (auto simp: pp_def split: if_splits)
  next
    case False
    then show ?thesis by (simp add: pp_def)
  qed
  have start: "tail = [] \<or> hd tail = CHR ''/'' \<or> hd tail = CHR ''?''"
  proof (cases "tail = []")
    case False
    then have "\<not> (hd tail \<notin> set ''/?#'')"
      unfolding tail_def by (rule hd_dropWhile)
    moreover from False th have "hd tail \<noteq> CHR ''#''"
      by (cases tail) auto
    ultimately show ?thesis by auto
  qed simp
  have slash: "pt = [] \<or> take (Suc 0) pt = ''/''"
    using start by (cases tail) (auto simp: pt_def)
  have whole: "pt @ (if qr \<noteq> '''' then ''?'' @ qr else '''') = tail"
  proof (cases "CHR ''?'' \<in> set tail")
    case True
    have "CHR ''?'' \<in> set tail \<and> qr \<noteq> '''' \<or> CHR ''?'' \<notin> set tail"
      using qry unfolding qr_def tail_def .
    with True have "qr \<noteq> ''''" by simp
    with split_at_first [OF True] show ?thesis by (simp add: pt_def qr_def)
  next
    case False
    then show ?thesis by (simp add: pt_def qr_def split_absent)
  qed
  have "urlunparse ?p = sch @ ''://'' @ nl @ pt @ (if qr \<noteq> '''' then ''?'' @ qr else '''')"
    using joined slash un ne by (auto simp: urlunparse_def urlunsplit_def Let_def)
  then have "urlunparse ?p = sch @ ''://'' @ r"
    using whole r by simp
  with parse show ?thesis
    by (intro exI [of _ ?p]) (simp add: nl_def)
qed

subsection \<open>Stripping\<close>

lemma rstrip_last: "rstrip P s = [] \<or> \<not> P (last (rstrip P s))"
proof (cases "dropWhile P (rev s) = []")
  case True
  then show ?thesis by (simp add: rstrip_def)
next
  case False
  then have "\<not> P (hd (dropWhile P (rev s)))" by (rule hd_dropWhile)
  with False show ?thesis by (simp add: rstrip_def last_rev)
qed

lemma rstrip_fixed: "s = [] \<or> \<not> P (last s) \<Longrightarrow> rstrip P s = s"
  by (cases s rule: rev_cases) (auto simp: rstrip_def)

lemma takeWhile_eq_replicate:
  "takeWhile (\<lambda>x. x = c) xs = replicate (length (takeWhile (\<lambda>x. x = c) xs)) c"
  by (induction xs) auto

lemma rstrip_slashes:
  "s = rstrip is_slash s @ replicate (length (takeWhile is_slash (rev s))) CHR ''/''"
proof -
  have "rev s = takeWhile is_slash (rev s) @ dropWhile is_slash (rev s)" by simp
  then have "s = rev (dropWhile is_slash (rev s)) @ rev (takeWhile is_slash (rev s))"
    by (metis rev_append rev_rev_ident)
  moreover have "takeWhile is_slash (rev s)
      = replicate (length (takeWhile is_slash (rev s))) CHR ''/''"
    using takeWhile_eq_replicate [of "CHR ''/''" "rev s"]
    by (simp add: is_slash_def [abs_def])
  ultimately show ?thesis
    by (metis rev_replicate rstrip_def)
qed

lemma normalize_base:
  "normalize ipa base link = Inr x \<Longrightarrow> base = '''' \<or> (\<exists>b. urlparse ipa base '''' = Inr b)"
  by (auto simp: normalize_def urljoin_def split: sum.splits if_splits)

lemma normalize_result:
  assumes "normalize ipa base link = Inr (Some u)"
  shows "\<exists>abs_link p. urljoin ipa base link = Inr abs_link \<and> urlparse ipa abs_link '''' = Inr p
           \<and> u = rstrip is_slash (urlunparse (p\<lparr>fragment := ''''\<rparr>))
           \<and> (startswith u ''http://'' \<or> startswith u ''https://'')"
  using assms by (auto simp: normalize_def Let_def split: sum.splits if_splits)

lemma stable_url_split:
  assumes "stable_url ipa u"
  shows "\<exists>sch. (sch = ''http'' \<or> sch = ''https'') \<and> u = sch @ ''://'' @ after_scheme u"
proof (cases "startswith u ''http://''")
  case True
  then have "take 7 u = ''http://''" by (simp add: startswith_def eval_nat_numeral)
  then have "u = ''http://'' @ drop 7 u" by (metis append_take_drop_id)
  with True show ?thesis by (auto simp: after_scheme_def)
next
  case False
  with assms have "startswith u ''https://''" by (simp add: stable_url_def)
  then have "take 8 u = ''https://''" by (simp add: startswith_def eval_nat_numeral)
  then have "u = ''https://'' @ drop 8 u" by (metis append_take_drop_id)
  with False show ?thesis by (auto simp: after_scheme_def)
qed

lemma urlparse_stable_url:
  assumes "stable_url ipa u"
  shows "\<exists>p. urlparse ipa u d = Inr p \<and> urlunparse p = u
           \<and> (scheme p = ''http'' \<or> scheme p = ''https'') \<and> netloc p \<noteq> ''''
           \<and> fragment p = ''''"
proof -
  from stable_url_split [OF assms] obtain sch where
    sch: "sch = ''http'' \<or> sch = ''https''" and u: "u = sch @ ''://'' @ after_scheme u"
    by blast
  from assms have "list_all (\<lambda>c. c \<notin> set (CHR ''#'' # unsafe_url_bytes_to_remove)) u"
    by (simp add: stable_url_def)
  then have "list_all (\<lambda>c. c \<notin> set (CHR ''#'' # unsafe_url_bytes_to_remove))
               (sch @ ''://'' @ after_scheme u)"
    using u by simp
  then have clean: "list_all (\<lambda>c. c \<notin> set (CHR ''#'' # unsafe_url_bytes_to_remove)) (after_scheme u)"
    by (simp only: list_all_append)
  from urlparse_stable [of sch "after_scheme u" ipa d, OF sch clean] assms
  obtain p where "urlparse ipa (sch @ ''://'' @ after_scheme u) d = Inr p"
    "urlunparse p = sch @ ''://'' @ after_scheme u" "scheme p = sch"
    "netloc p = url_host u" "fragment p = ''''"
    unfolding stable_url_def url_host_def url_tail_def url_path_def url_query_def One_nat_def
    by blast
  with sch u assms show ?thesis
    by (intro exI [of _ p]) (auto simp: stable_url_def)
qed

lemma urljoin_absolute:
  assumes "base \<noteq> []" and "url \<noteq> []" and "urlparse ipa base [] = Inr b"
    and "urlparse ipa url (scheme b) = Inr p"
    and "scheme p \<in> set uses_netloc" and "netloc p \<noteq> []"
  shows "urljoin ipa base url =
           Inr (if scheme p \<noteq> scheme b \<or> scheme p \<notin> set uses_relative then url
                else urlunparse p)"
proof (cases "scheme p = scheme b")
  case True
  with assms(5) have "scheme b \<in> set uses_netloc" by simp
  with assms(1-4,6) True show ?thesis by (simp add: urljoin_def)
next
  case False
  with assms(1-4) show ?thesis by (simp add: urljoin_def)
qed

lemma normalize_stable:
  assumes st: "stable_url ipa u" and fx: "u = [] \<or> last u \<noteq> CHR ''/''"
    and base: "base = '''' \<or> (\<exists>b. urlparse ipa base '''' = Inr b)"
  shows "normalize ipa base u = Inr (Some u)"
proof -
  from st have sw: "startswith u ''http://'' \<or> startswith u ''https://''" and ne: "u \<noteq> ''''"
    by (auto simp: stable_url_def startswith_def)
  have join: "urljoin ipa base u = Inr u"
  proof (cases "base = ''''")
    case True
    then show ?thesis by (simp add: urljoin_def)
  next
    case False
    with base obtain b where b: "urlparse ipa base '''' = Inr b" by blast
    from urlparse_stable_url [OF st, of "scheme b"] obtain p where
      p: "urlparse ipa u (scheme b) = Inr p" "urlunparse p = u"
        "scheme p = ''http'' \<or> scheme p = ''https''" "netloc p \<noteq> ''''"
      by blast
    from p(3) have "scheme p \<in> set uses_relative" "scheme p \<in> set uses_netloc"
      by (auto simp: uses_relative_def uses_netloc_def)
    then have rel: "scheme p \<in> set uses_relative" and nl: "scheme p \<in> set uses_netloc"
      by simp_all
    from urljoin_absolute [OF False ne b p(1) nl p(4)] p(2) rel show ?thesis
      by simp
  qed
  from urlparse_stable_url [OF st, of "''''"] obtain p where
    p: "urlparse ipa u '''' = Inr p" "urlunparse p = u" "fragment p = ''''"
    by blast
  from p(3) have "p\<lparr>fragment := []\<rparr> = p" by simp
  then have un: "urlunparse (p\<lparr>fragment := []\<rparr>) = u"
    using p(2) by (simp only:)
  from fx have rs: "rstrip is_slash u = u"
    by (intro rstrip_fixed) (simp add: is_slash_def)
  show ?thesis
    using sw by (simp add: normalize_def join p(1) un rs)
qed

subsection \<open>What a parsed URL cannot contain\<close>

text \<open>No component that \<^verbatim>\<open>urlparse\<close> returns, the fragment apart, holds a \<^verbatim>\<open>#\<close>, a tab, a
  carriage return or a newline.\<close>

definition clean :: "string \<Rightarrow> bool" where
  "clean s = list_all (\<lambda>c. c \<notin> set (CHR ''#'' # unsafe_url_bytes_to_remove)) s"

lemma clean_Nil [simp]: "clean []"
  by (simp add: clean_def)

lemma clean_append [simp]: "clean (xs @ ys) = (clean xs \<and> clean ys)"
  by (simp add: clean_def)

lemma clean_subset: "set xs \<subseteq> set ys \<Longrightarrow> clean ys \<Longrightarrow> clean xs"
  by (auto simp: clean_def list_all_iff)

lemma clean_scheme:
  assumes "list_all (\<lambda>c. c \<in> set scheme_chars) s"
  shows "clean (lower s)"
proof -
  have "list_all (\<lambda>c. clean [lower_char c]) scheme_chars"
    by code_simp
  with assms show ?thesis
    by (auto simp: clean_def lower_def list_all_iff)
qed

lemma clean_no_hash:
  assumes "list_all (\<lambda>c. c \<notin> set unsafe_url_bytes_to_remove) s" and "CHR ''#'' \<notin> set s"
  shows "clean s"
  using assms by (auto simp: clean_def list_all_iff)

lemma split_tail_clean:
  assumes "list_all (\<lambda>c. c \<notin> set unsafe_url_bytes_to_remove) url"
  shows "clean (sr_path (split_tail sch nl url)) \<and> clean (sr_query (split_tail sch nl url))"
proof -
  define url1 where "url1 = (if CHR ''#'' \<in> set url then fst (split1 CHR ''#'' url) else url)"
  have h: "CHR ''#'' \<notin> set url1"
    by (auto simp: url1_def split1_def dest: set_takeWhileD)
  have "set url1 \<subseteq> set url"
    by (auto simp: url1_def split1_def dest: set_takeWhileD)
  with assms have "list_all (\<lambda>c. c \<notin> set unsafe_url_bytes_to_remove) url1"
    by (auto simp: list_all_iff)
  with h have c: "clean url1" by (intro clean_no_hash)
  have "set (sr_path (split_tail sch nl url)) \<subseteq> set url1"
    "set (sr_query (split_tail sch nl url)) \<subseteq> set url1"
    by (auto simp: split_tail_def url1_def split1_def Let_def
          dest: set_takeWhileD set_dropWhileD in_set_dropD)
  with c show ?thesis by (auto intro: clean_subset)
qed


lemma urlsplit_shape:
  assumes "urlsplit ipa url [] = Inr r"
  shows "\<exists>sch nl rest u1. r = split_tail sch nl rest
           \<and> u1 = filter (\<lambda>c. c \<notin> set unsafe_url_bytes_to_remove)
                    (lstrip whatwg_c0_control_or_space url)
           \<and> (sch = [] \<or> (\<exists>n. sch = lower (take n u1)
                   \<and> list_all (\<lambda>c. c \<in> set scheme_chars) (take n u1)))
           \<and> (nl = [] \<or> (\<exists>n. nl = takeWhile (\<lambda>c. c \<notin> set ''/?#'') (drop n u1)))
           \<and> set rest \<subseteq> set u1"
proof -
  define u1 where "u1 = filter (\<lambda>c. c \<notin> set unsafe_url_bytes_to_remove)
                   (lstrip whatwg_c0_control_or_space url)"
  define i where "i = find CHR '':'' u1"
  define found where "found = (i > 0 \<and> isascii (hd u1) \<and> isalpha_ascii (hd u1)
                \<and> list_all (\<lambda>c. c \<in> set scheme_chars) (take (nat i) u1))"
  define sch where "sch = (if found then lower (take (nat i) u1) else [])"
  define u2 where "u2 = (if found then drop (nat i + 1) u1 else u1)"
  have s1: "filter (\<lambda>c. c \<notin> set unsafe_url_bytes_to_remove) (strip whatwg_c0_control_or_space [])
              = []"
    by (simp add: strip_def rstrip_def lstrip_def)
  have pair: "(if found then (lower (take (nat i) u1), drop (nat i + 1) u1) else ([], u1))
                = (sch, u2)"
    by (simp add: sch_def u2_def)
  have eq: "urlsplit ipa url [] =
      (if take 2 u2 = ''//'' then
         (let (nl, url3) = splitnetloc u2 in
          if (CHR ''['' \<in> set nl \<and> CHR '']'' \<notin> set nl)
             \<or> (CHR '']'' \<in> set nl \<and> CHR ''['' \<notin> set nl) then Inl ValueError
          else if CHR ''['' \<in> set nl \<and> CHR '']'' \<in> set nl then
            (case check_bracketed_host ipa
                    (fst (split1 CHR '']'' (snd (split1 CHR ''['' nl)))) of
               Inl e \<Rightarrow> Inl e
             | Inr _ \<Rightarrow> Inr (split_tail sch nl url3))
          else Inr (split_tail sch nl url3))
       else Inr (split_tail sch [] u2))"
    unfolding urlsplit_def Let_def s1 u1_def [symmetric] i_def [symmetric]
      found_def [symmetric] pair
    by (simp only: prod.case)
  have sub: "set u2 \<subseteq> set u1"
    by (auto simp: u2_def dest: in_set_dropD)
  have schp: "sch = [] \<or> (\<exists>n. sch = lower (take n u1)
                   \<and> list_all (\<lambda>c. c \<in> set scheme_chars) (take n u1))"
    by (auto simp: sch_def found_def)
  show ?thesis
  proof (cases "take 2 u2 = ''//''")
    case False
    with assms eq have "r = split_tail sch [] u2" by simp
    with sub schp show ?thesis unfolding u1_def by blast
  next
    case True
    with assms eq have "r = split_tail sch (fst (splitnetloc u2)) (snd (splitnetloc u2))"
      by (simp add: case_prod_beta split: if_splits sum.splits)
    moreover have "set (snd (splitnetloc u2)) \<subseteq> set u1"
      using sub by (auto simp: splitnetloc_def dest: set_dropWhileD in_set_dropD)
    moreover have "\<exists>n. fst (splitnetloc u2) = takeWhile (\<lambda>c. c \<notin> set ''/?#'') (drop n u1)"
      by (cases found) (auto simp: splitnetloc_def u2_def)
    ultimately show ?thesis using schp unfolding u1_def by blast
  qed
qed

lemma urlsplit_clean:
  assumes "urlsplit ipa url [] = Inr r"
  shows "clean (sr_scheme r) \<and> clean (sr_netloc r) \<and> clean (sr_path r) \<and> clean (sr_query r)"
proof -
  from urlsplit_shape [OF assms] obtain sch nl rest u1 where
    r: "r = split_tail sch nl rest"
    and u1: "u1 = filter (\<lambda>c. c \<notin> set unsafe_url_bytes_to_remove)
                    (lstrip whatwg_c0_control_or_space url)"
    and sch: "sch = [] \<or> (\<exists>n. sch = lower (take n u1)
                   \<and> list_all (\<lambda>c. c \<in> set scheme_chars) (take n u1))"
    and nl: "nl = [] \<or> (\<exists>n. nl = takeWhile (\<lambda>c. c \<notin> set ''/?#'') (drop n u1))"
    and rest: "set rest \<subseteq> set u1"
    by blast
  have safe: "list_all (\<lambda>c. c \<notin> set unsafe_url_bytes_to_remove) u1"
    by (simp add: u1 list_all_iff)
  with rest have "list_all (\<lambda>c. c \<notin> set unsafe_url_bytes_to_remove) rest"
    by (auto simp: list_all_iff)
  from split_tail_clean [OF this, of sch nl]
  have pq: "clean (sr_path r)" "clean (sr_query r)"
    by (simp_all add: r)
  from sch have cs: "clean sch"
    by (auto intro: clean_scheme)
  have cn: "clean nl"
  proof (rule clean_no_hash)
    from nl have "set nl \<subseteq> set u1"
      by (auto dest: set_takeWhileD in_set_dropD)
    with safe show "list_all (\<lambda>c. c \<notin> set unsafe_url_bytes_to_remove) nl"
      by (auto simp: list_all_iff)
    from nl show "CHR ''#'' \<notin> set nl"
      by (auto dest: set_takeWhileD)
  qed
  have "sr_scheme r = sch" "sr_netloc r = nl"
    by (simp_all add: r split_tail_def Let_def case_prod_beta)
  with cs cn pq show ?thesis by simp
qed

lemma splitparams_subset:
  "set (fst (splitparams s)) \<subseteq> set s \<and> set (snd (splitparams s)) \<subseteq> set s"
proof -
  have t: "set (takeWhile P xs) \<subseteq> set xs" for P and xs :: string
    by (auto dest: set_takeWhileD)
  have d: "set (drop n (dropWhile P xs)) \<subseteq> set xs" for P n and xs :: string
    by (meson set_drop_subset set_dropWhileD subsetD subsetI)
  have td: "set (take n xs @ takeWhile P (drop n xs)) \<subseteq> set xs" for P n and xs :: string
    using t [of P "drop n xs"] set_take_subset [of n xs] set_drop_subset [of n xs] by auto
  have dd: "set (drop m (dropWhile P (drop n xs))) \<subseteq> set xs" for P m n and xs :: string
    using d [of m P "drop n xs"] set_drop_subset [of n xs] by auto
  have bl: "set (butlast xs) \<subseteq> set xs" for xs :: string
    by (auto dest: in_set_butlastD)
  show ?thesis
    unfolding splitparams_def split1_def Let_def
    using t d td dd bl by (simp split: if_splits)
qed

lemma urlparse_clean:
  assumes "urlparse ipa url [] = Inr p"
  shows "clean (scheme p) \<and> clean (netloc p) \<and> clean (path p) \<and> clean (params p)
         \<and> clean (query p)"
proof -
  from assms obtain r where r: "urlsplit ipa url [] = Inr r"
    by (cases "urlsplit ipa url []") (simp_all add: urlparse_def)
  from urlsplit_clean [OF r] have c: "clean (sr_scheme r)" "clean (sr_netloc r)"
    "clean (sr_path r)" "clean (sr_query r)"
    by simp_all
  from splitparams_subset [of "sr_path r"] c(3)
  have sp: "clean (fst (splitparams (sr_path r)))" "clean (snd (splitparams (sr_path r)))"
    by (auto intro: clean_subset)
  define pp where "pp = (if sr_scheme r \<in> set uses_params \<and> CHR '';'' \<in> set (sr_path r)
                  then splitparams (sr_path r) else (sr_path r, ''''))"
  have cp: "clean (fst pp)" "clean (snd pp)"
    using sp c(3) by (simp_all add: pp_def)
  have "p = \<lparr>scheme = sr_scheme r, netloc = sr_netloc r, path = fst pp, params = snd pp,
             query = sr_query r, fragment = sr_fragment r\<rparr>"
    using assms unfolding urlparse_def r
    by (auto simp: case_prod_beta pp_def)
  with c cp show ?thesis by simp
qed

lemma clean_Cons:
  "clean (c # s) = (c \<notin> set (CHR ''#'' # unsafe_url_bytes_to_remove) \<and> clean s)"
  by (simp add: clean_def)

lemma urlunsplit_clean:
  assumes "clean (sr_scheme r)" "clean (sr_netloc r)" "clean (sr_path r)"
    "clean (sr_query r)" "sr_fragment r = []"
  shows "clean (urlunsplit r)"
  using assms
  by (simp add: urlunsplit_def Let_def clean_Cons unsafe_url_bytes_to_remove_def)

lemma urlunparse_clean:
  assumes "clean (scheme p)" "clean (netloc p)" "clean (path p)" "clean (params p)"
    "clean (query p)" "fragment p = []"
  shows "clean (urlunparse p)"
  unfolding urlunparse_def using assms
  by (intro urlunsplit_clean)
     (simp_all add: clean_Cons unsafe_url_bytes_to_remove_def)

lemma normalize_clean:
  assumes "normalize ipa base link = Inr (Some u)"
  shows "clean u"
proof -
  from normalize_result [OF assms] obtain abs_link p where
    p: "urlparse ipa abs_link [] = Inr p"
      "u = rstrip is_slash (urlunparse (p\<lparr>fragment := []\<rparr>))"
    by blast
  from urlparse_clean [OF p(1)] have "clean (urlunparse (p\<lparr>fragment := []\<rparr>))"
    by (intro urlunparse_clean) simp_all
  moreover have "set u \<subseteq> set (urlunparse (p\<lparr>fragment := []\<rparr>))"
    unfolding p(2) rstrip_def by (auto dest: set_dropWhileD)
  ultimately show ?thesis by (auto intro: clean_subset)
qed

subsection \<open>The three forms of a bare host\<close>

lemma normalize_base_error:
  assumes "base \<noteq> []" and "link \<noteq> []" and "urlparse ipa base [] = Inl e"
  shows "normalize ipa base link = Inl e"
  using assms by (simp add: normalize_def urljoin_def)

lemma normalize_same_join:
  assumes "urljoin ipa base link = Inr link"
  shows "normalize ipa base link = normalize ipa [] link"
  using assms by (simp add: normalize_def urljoin_def)

lemma host_forms_parse:
  "urlparse ipa ''http://host'' d
     = Inr \<lparr>scheme = ''http'', netloc = ''host'', path = [], params = [], query = [],
            fragment = []\<rparr>"
  "urlparse ipa ''http://host/'' d
     = Inr \<lparr>scheme = ''http'', netloc = ''host'', path = ''/'', params = [], query = [],
            fragment = []\<rparr>"
  "urlparse ipa ''http://host//'' d
     = Inr \<lparr>scheme = ''http'', netloc = ''host'', path = ''//'', params = [], query = [],
            fragment = []\<rparr>"
  by code_simp+

lemma host_forms_unparse:
  "urlunparse \<lparr>scheme = ''http'', netloc = ''host'', path = [], params = [], query = [],
            fragment = []\<rparr> = ''http://host''"
  "urlunparse \<lparr>scheme = ''http'', netloc = ''host'', path = ''/'', params = [], query = [],
            fragment = []\<rparr> = ''http://host/''"
  "urlunparse \<lparr>scheme = ''http'', netloc = ''host'', path = ''//'', params = [], query = [],
            fragment = []\<rparr> = ''http://host//''"
  by code_simp+

lemma host_forms_alone:
  "normalize ipa [] ''http://host'' = Inr (Some ''http://host'')"
  "normalize ipa [] ''http://host/'' = Inr (Some ''http://host'')"
  "normalize ipa [] ''http://host//'' = Inr (Some ''http://host'')"
  by code_simp+

lemma urljoin_fixed:
  assumes "base \<noteq> []" and "url \<noteq> []" and "urlparse ipa base [] = Inr b"
    and "urlparse ipa url (scheme b) = Inr p"
    and "scheme p \<in> set uses_netloc" and "netloc p \<noteq> []"
    and "scheme p \<in> set uses_relative" and "urlunparse p = url"
  shows "urljoin ipa base url = Inr url"
  using urljoin_absolute [OF assms(1-6)] assms(7,8) by simp

lemma host_forms_join:
  assumes "link = ''http://host'' \<or> link = ''http://host/'' \<or> link = ''http://host//''"
    and "base = [] \<or> (\<exists>b. urlparse ipa base [] = Inr b)"
  shows "urljoin ipa base link = Inr link"
proof (cases "base = []")
  case True
  then show ?thesis by (simp add: urljoin_def)
next
  case False
  with assms(2) obtain b where b: "urlparse ipa base [] = Inr b" by blast
  have m: "''http'' \<in> set uses_netloc" "''http'' \<in> set uses_relative"
    by (simp_all add: uses_netloc_def uses_relative_def)
  from assms(1) show ?thesis
  proof (elim disjE)
    assume l: "link = ''http://host''"
    show ?thesis
      unfolding l
      by (rule urljoin_fixed [OF False _ b host_forms_parse(1)])
         (simp_all add: m host_forms_unparse)
  next
    assume l: "link = ''http://host/''"
    show ?thesis
      unfolding l
      by (rule urljoin_fixed [OF False _ b host_forms_parse(2)])
         (simp_all add: m host_forms_unparse)
  next
    assume l: "link = ''http://host//''"
    show ?thesis
      unfolding l
      by (rule urljoin_fixed [OF False _ b host_forms_parse(3)])
         (simp_all add: m host_forms_unparse)
  qed
qed

lemma host_forms_normalize:
  assumes "link = ''http://host'' \<or> link = ''http://host/'' \<or> link = ''http://host//''"
  shows "normalize ipa base link =
           (if base = [] then Inr (Some ''http://host'')
            else case urlparse ipa base [] of
                   Inl e \<Rightarrow> Inl e
                 | Inr b \<Rightarrow> Inr (Some ''http://host''))"
proof (cases "base = [] \<or> (\<exists>b. urlparse ipa base [] = Inr b)")
  case True
  from host_forms_join [OF assms True]
  have "normalize ipa base link = normalize ipa [] link"
    by (rule normalize_same_join)
  also have "\<dots> = Inr (Some ''http://host'')"
    using assms host_forms_alone [of ipa] by auto
  finally show ?thesis using True by auto
next
  case False
  then obtain e where e: "base \<noteq> []" "urlparse ipa base [] = Inl e"
    by (cases "urlparse ipa base []") auto
  from assms have "link \<noteq> []" by auto
  from normalize_base_error [OF e(1) this e(2)] e show ?thesis by simp
qed

section \<open>Exceptions of a run\<close>











section \<open>Example runs\<close>




text \<open>A seed that answers with a page without links.\<close>

definition lonely_config :: config where
  "lonely_config = \<lparr>seed_url = ''http://seed.example/'', max_pages = 20, max_retries = 3\<rparr>"

definition lonely_world :: world where
  "lonely_world =
     \<lparr>requests_get = (\<lambda>n url t. Response 200 ''<html><body>no links</body></html>''),
      write_file = (\<lambda>f text. True), makedirs = True, set_order = (\<lambda>n url. 0),
      ip_addr = (\<lambda>h. None)\<rparr>"

lemma lonely_visited:
  "map_sum id visited (crawl_iter 2 lonely_config lonely_world
      (initial_state lonely_config ''seed.example'')) = Inr [''http://seed.example'']"
  by code_simp

lemma lonely_loop_visited:
  "map_sum id visited (crawl_loop lonely_config lonely_world
      (initial_state lonely_config ''seed.example'')) = Inr [''http://seed.example'']"
proof -
  have "finished lonely_config (crawl_iter 2 lonely_config lonely_world
      (initial_state lonely_config ''seed.example''))"
    by code_simp
  from crawl_loop_of_iter [OF this] lonely_visited show ?thesis by simp
qed

lemma lonely_seed: "rstrip is_slash (seed_url lonely_config) = ''http://seed.example''"
  by (simp add: lonely_config_def rstrip_def is_slash_def)


text \<open>A seed with two links, of which one answers 404 and the other is a page that
  links to the first again; and a disk that takes no file.\<close>

definition rediscover_config :: config where
  "rediscover_config = \<lparr>seed_url = ''http://h/'', max_pages = 20, max_retries = 3\<rparr>"

definition rediscover_world :: world where
  \<open>rediscover_world =
     \<lparr>requests_get = (\<lambda>n url t.
        if url = ''http://h'' then Response 200 ''<a href="/b">b</a> <a href="/c">c</a>''
        else if url = ''http://h/c'' then Response 200 ''<a href="/b">b</a>''
        else Response 404 ''''),
      write_file = (\<lambda>f text. True), makedirs = True, set_order = (\<lambda>n url. 0),
      ip_addr = (\<lambda>h. None)\<rparr>\<close>

definition disk_full_world :: world where
  "disk_full_world =
     \<lparr>requests_get = (\<lambda>n url t. Response 200 ''<html><body>no links</body></html>''),
      write_file = (\<lambda>f text. False), makedirs = True, set_order = (\<lambda>n url. 0),
      ip_addr = (\<lambda>h. None)\<rparr>"

lemma rediscover_2:
  "map_sum id (\<lambda>s. (queue s, visited s, failed s))
     (crawl_iter 1 rediscover_config rediscover_world (initial_state rediscover_config ''h''))
     = Inr ([''http://h/b'', ''http://h/c''], [''http://h''], {})
   \<and> map_sum id (\<lambda>s. (queue s, visited s, failed s))
     (crawl_iter 2 rediscover_config rediscover_world (initial_state rediscover_config ''h''))
     = Inr ([''http://h/c''], [''http://h''], {''http://h/b''})"
  by code_simp

lemma disk_full_run: "map_sum id snd (run lonely_config disk_full_world) = Inl OSError"
  by code_simp

lemma lonely_domain: "get_domain (\<lambda>h. None) ''http://seed.example/'' = Inr ''seed.example''"
  by code_simp

text \<open>A page with a fragment link, a mail link, a link into the site and a link to
  another host.\<close>

definition example_page :: string where
  \<open>example_page =
     ''<a href="#top">top</a> <a href="mailto:a@b.com">mail</a> '' @
     ''<a href="/x">x</a> <a href="http://other.example/y">y</a>''\<close>

lemma example_page_links:
  "findall_href example_page = [''#top'', ''mailto:a@b.com'', ''/x'', ''http://other.example/y'']"
  by code_simp

lemma example_found:
  "extract_loop ipa ''http://seed.example/page'' []
     [''#top'', ''mailto:a@b.com'', ''/x'', ''http://other.example/y'']
     = Inr [''http://seed.example/x'', ''http://other.example/y'']"
  by code_simp

lemma example_domains:
  "get_domain ipa ''http://seed.example/x'' = Inr ''seed.example''"
  "get_domain ipa ''http://other.example/y'' = Inr ''other.example''"
  by code_simp+

lemma sort_key_two:
  "sort_key f [a, b] = (if f a \<le> f b then [a, b] else [b, a])"
  by simp

text \<open>Links against the base of the examples.\<close>

lemma double_slash_normal:
  "normalize (\<lambda>h. None) ''http://seed.example/page'' ''http://host//''
     = Inr (Some ''http://host'')"
  by code_simp

lemma seed_page_parse:
  "urlparse (\<lambda>h. None) ''http://seed.example/page'' []
     = Inr \<lparr>scheme = ''http'', netloc = ''seed.example'', path = ''/page'', params = [],
            query = [], fragment = []\<rparr>"
  by code_simp

lemma slash_x_normal:
  "normalize (\<lambda>h. None) ''http://seed.example/page'' ''/x/'' = Inr (Some ''http://seed.example/x'')"
  by code_simp

lemma seed_x_settled:
  "url_host ''http://seed.example/x'' \<noteq> []
   \<and> netloc_checked (\<lambda>h. None) (url_host ''http://seed.example/x'')
   \<and> CHR ''?'' \<notin> set ''http://seed.example/x''
   \<and> last (url_path ''http://seed.example/x'') \<noteq> CHR '';''"
  by code_simp



section \<open>The retry ledger\<close>





section \<open>The frontier\<close>

text \<open>
  C3. With \<^verbatim>\<open>max_pages\<close> not negative, the list \<^verbatim>\<open>visited\<close> never holds more than
  \<^verbatim>\<open>max_pages\<close> URLs: not at the head of the loop after any number of turns, and not
  when the loop has ended. (A turn appends to \<^verbatim>\<open>visited\<close> at most once, and only when the
  condition of the loop held at its start, so the bound holds inside a turn as well.)
\<close>

theorem visited_bound:
  "0 \<le> max_pages cfg \<Longrightarrow>
     (crawl_iter n cfg w (initial_state cfg d) = Inr s \<longrightarrow>
        int (length (visited s)) \<le> max_pages cfg)
     \<and> (crawl_loop cfg w (initial_state cfg d) = Inr s \<longrightarrow>
        int (length (visited s)) \<le> max_pages cfg)"
proof (intro conjI impI)
  assume "0 \<le> max_pages cfg"
  then have i: "int (length (visited (initial_state cfg d))) \<le> max_pages cfg"
    by (simp add: initial_state_def)
  { assume "crawl_iter n cfg w (initial_state cfg d) = Inr s"
    with i show "int (length (visited s)) \<le> max_pages cfg" by (rule crawl_iter_bound) }
  { assume "crawl_loop cfg w (initial_state cfg d) = Inr s"
    with i show "int (length (visited s)) \<le> max_pages cfg" by (rule crawl_loop_bound) }
qed

theorem visited_bound_witness:
  "0 \<le> max_pages lonely_config
   \<and> (\<exists>s. crawl_iter 2 lonely_config lonely_world (initial_state lonely_config ''seed.example'')
             = Inr s
          \<and> visited s = [''http://seed.example'']
          \<and> int (length (visited s)) \<le> max_pages lonely_config)
   \<and> (\<exists>s. crawl_loop lonely_config lonely_world (initial_state lonely_config ''seed.example'')
             = Inr s
          \<and> visited s = [''http://seed.example'']
          \<and> int (length (visited s)) \<le> max_pages lonely_config)"
proof -
  have p: "0 \<le> max_pages lonely_config" by (simp add: lonely_config_def)
  from lonely_visited obtain s1 where
    s1: "crawl_iter 2 lonely_config lonely_world (initial_state lonely_config ''seed.example'') = Inr s1"
      "visited s1 = [''http://seed.example'']"
    by (cases "crawl_iter 2 lonely_config lonely_world (initial_state lonely_config ''seed.example'')") auto
  from lonely_loop_visited obtain s2 where
    s2: "crawl_loop lonely_config lonely_world (initial_state lonely_config ''seed.example'') = Inr s2"
      "visited s2 = [''http://seed.example'']"
    by (cases "crawl_loop lonely_config lonely_world (initial_state lonely_config ''seed.example'')") auto
  from visited_bound [OF p, of 2 lonely_world "''seed.example''" s1] s1(1)
  have "int (length (visited s1)) \<le> max_pages lonely_config" by simp
  moreover from visited_bound [OF p, of 2 lonely_world "''seed.example''" s2] s2(1)
  have "int (length (visited s2)) \<le> max_pages lonely_config" by simp
  ultimately show ?thesis using p s1 s2 by blast
qed




text \<open>
  C5, as the code has it. At the head of the loop after any number of turns, and when the
  loop has ended, no URL is both in the queue and in \<^verbatim>\<open>visited\<close>, neither list holds a
  URL twice, and \<^verbatim>\<open>visited_set\<close> is the set of \<^verbatim>\<open>visited\<close>. A URL that a turn adds to
  \<^verbatim>\<open>failed\<close> is, after that turn, neither queued nor visited. Nothing more holds of
  \<^verbatim>\<open>failed\<close>: line 142 tests the links of a page against \<^verbatim>\<open>visited_set\<close> and the queue
  only, so a failed URL that a later page links to is queued again.
\<close>

theorem frontier_disjoint:
  "(crawl_iter n cfg w (initial_state cfg d) = Inr s \<or> crawl_loop cfg w (initial_state cfg d) = Inr s
      \<longrightarrow> set (queue s) \<inter> set (visited s) = {} \<and> distinct (queue s) \<and> distinct (visited s)
          \<and> visited_set s = set (visited s))
   \<and> (crawl_iter n cfg w (initial_state cfg d) = Inr s \<and> crawl_step cfg w s = Inr s'
        \<and> u \<in> failed s' \<and> u \<notin> failed s
      \<longrightarrow> u \<notin> set (queue s') \<and> u \<notin> set (visited s'))"
proof (intro conjI impI)
  assume a: "crawl_iter n cfg w (initial_state cfg d) = Inr s
      \<or> crawl_loop cfg w (initial_state cfg d) = Inr s"
  have "frontier_inv s"
    using a initial_state_inv [of cfg d] by (auto dest: crawl_iter_inv crawl_loop_inv)
  then show "set (queue s) \<inter> set (visited s) = {}" "distinct (queue s)" "distinct (visited s)"
    "visited_set s = set (visited s)"
    by (simp_all add: frontier_inv_def)
next
  assume a: "crawl_iter n cfg w (initial_state cfg d) = Inr s \<and> crawl_step cfg w s = Inr s'
        \<and> u \<in> failed s' \<and> u \<notin> failed s"
  then have "frontier_inv s"
    using initial_state_inv [of cfg d] by (auto dest: crawl_iter_inv)
  with a have "u \<notin> set (queue s') \<and> u \<notin> set (visited s')"
    by (auto dest: crawl_step_newly_failed)
  then show "u \<notin> set (queue s')" "u \<notin> set (visited s')" by simp_all
qed

theorem frontier_disjoint_witness:
  "\<exists>s s'. crawl_iter 1 rediscover_config rediscover_world (initial_state rediscover_config ''h'')
            = Inr s
      \<and> crawl_step rediscover_config rediscover_world s = Inr s'
      \<and> queue s = [''http://h/b'', ''http://h/c''] \<and> visited s = [''http://h'']
      \<and> ''http://h/b'' \<in> failed s' \<and> ''http://h/b'' \<notin> failed s
      \<and> ''http://h/b'' \<notin> set (queue s') \<and> ''http://h/b'' \<notin> set (visited s')
      \<and> set (queue s) \<inter> set (visited s) = {} \<and> distinct (queue s) \<and> distinct (visited s)
      \<and> visited_set s = set (visited s)"
proof -
  from rediscover_2 obtain s1 where
    s1: "crawl_iter 1 rediscover_config rediscover_world (initial_state rediscover_config ''h'') = Inr s1"
      "queue s1 = [''http://h/b'', ''http://h/c'']" "visited s1 = [''http://h'']" "failed s1 = {}"
    by (cases "crawl_iter 1 rediscover_config rediscover_world (initial_state rediscover_config ''h'')")
       auto
  from rediscover_2 obtain s2 where
    s2: "crawl_iter 2 rediscover_config rediscover_world (initial_state rediscover_config ''h'') = Inr s2"
      "failed s2 = {''http://h/b''}"
    by (cases "crawl_iter 2 rediscover_config rediscover_world (initial_state rediscover_config ''h'')")
       auto
  have "running rediscover_config s1"
    using s1 by (simp add: running_def rediscover_config_def)
  with crawl_iter_Suc_end [OF s1(1)] s2(1)
  have st: "crawl_step rediscover_config rediscover_world s1 = Inr s2"
    by (simp add: numeral_2_eq_2)
  note f = frontier_disjoint [of 1 rediscover_config rediscover_world "''h''" s1 s2 "''http://h/b''"]
  from f s1 s2 st show ?thesis
    by (intro exI [of _ s1] exI [of _ s2]) simp
qed

text \<open>
  C5 as stated fails: the seed links to \<^verbatim>\<open>/b\<close> and \<^verbatim>\<open>/c\<close>; \<^verbatim>\<open>/b\<close> answers 404 and is added
  to \<^verbatim>\<open>failed\<close>; \<^verbatim>\<open>/c\<close> is fetched and links to \<^verbatim>\<open>/b\<close>. After three turns \<^verbatim>\<open>/b\<close> is in
  \<^verbatim>\<open>failed\<close> and in the queue at once.
\<close>

theorem frontier_counterexample:
  "map_sum id queue
     (crawl_iter 3 rediscover_config rediscover_world (initial_state rediscover_config ''h''))
     = Inr [''http://h/b'']
   \<and> map_sum id failed
     (crawl_iter 3 rediscover_config rediscover_world (initial_state rediscover_config ''h''))
     = Inr {''http://h/b''}
   \<and> map_sum id visited
     (crawl_iter 3 rediscover_config rediscover_world (initial_state rediscover_config ''h''))
     = Inr [''http://h'', ''http://h/c'']"
  by code_simp

section \<open>Writing the pages\<close>

text \<open>
  C9, as the code has it. When the page of a successful fetch cannot be written, the
  turn raises \<^verbatim>\<open>OSError\<close>, which nothing catches: the target reaches neither \<^verbatim>\<open>visited\<close>
  nor \<^verbatim>\<open>failed\<close>, the loop ends with the exception at whatever turn this happens, and the
  script ends with it, before \<^verbatim>\<open>visited.txt\<close> and the summary.
\<close>

theorem write_failure_ends_run:
  "(queue s = url # rest \<and> url \<notin> visited_set s
      \<and> requests_get w (requests s) url 5 = Response 200 html
      \<and> \<not> write_file w (PageFile (page_id s)) html
      \<longrightarrow> crawl_step cfg w s = Inl OSError)
   \<and> (makedirs w \<and> get_domain (ip_addr w) (seed_url cfg) = Inr d
        \<and> crawl_iter n cfg w (initial_state cfg d) = Inr s \<and> running cfg s
        \<and> queue s = url # rest
        \<and> requests_get w (requests s) url 5 = Response 200 html
        \<and> \<not> write_file w (PageFile (page_id s)) html
      \<longrightarrow> crawl_loop cfg w (initial_state cfg d) = Inl OSError \<and> run cfg w = Inl OSError)"
proof (intro conjI impI)
  assume "queue s = url # rest \<and> url \<notin> visited_set s
      \<and> requests_get w (requests s) url 5 = Response 200 html
      \<and> \<not> write_file w (PageFile (page_id s)) html"
  then show "crawl_step cfg w s = Inl OSError"
    by (simp add: crawl_step_write_fails)
next
  assume a: "makedirs w \<and> get_domain (ip_addr w) (seed_url cfg) = Inr d
        \<and> crawl_iter n cfg w (initial_state cfg d) = Inr s \<and> running cfg s
        \<and> queue s = url # rest
        \<and> requests_get w (requests s) url 5 = Response 200 html
        \<and> \<not> write_file w (PageFile (page_id s)) html"
  then have "frontier_inv s"
    using initial_state_inv [of cfg d] by (auto dest: crawl_iter_inv)
  with a have "url \<notin> visited_set s"
    by (auto simp: frontier_inv_def)
  with a have "crawl_step cfg w s = Inl OSError"
    by (simp add: crawl_step_write_fails)
  with a have "crawl_loop cfg w s = Inl OSError"
    by (simp add: crawl_loop.simps [of cfg w s])
  moreover from a have "crawl_iter n cfg w (initial_state cfg d) = Inr s"
    by simp
  then have "crawl_loop cfg w (initial_state cfg d) = crawl_loop cfg w s"
    by (rule crawl_loop_after_iter)
  ultimately show l: "crawl_loop cfg w (initial_state cfg d) = Inl OSError"
    by simp
  with a show "run cfg w = Inl OSError"
    by (simp add: run_def)
qed

theorem write_failure_ends_run_witness:
  "crawl_step lonely_config disk_full_world (initial_state lonely_config ''seed.example'')
     = Inl OSError
   \<and> crawl_loop lonely_config disk_full_world (initial_state lonely_config ''seed.example'')
     = Inl OSError
   \<and> run lonely_config disk_full_world = Inl OSError"
proof -
  have h: "queue (initial_state lonely_config ''seed.example'') = ''http://seed.example'' # []"
    "''http://seed.example'' \<notin> visited_set (initial_state lonely_config ''seed.example'')"
    "requests_get disk_full_world (requests (initial_state lonely_config ''seed.example''))
       ''http://seed.example'' 5 = Response 200 ''<html><body>no links</body></html>''"
    "\<not> write_file disk_full_world (PageFile (page_id (initial_state lonely_config ''seed.example'')))
         ''<html><body>no links</body></html>''"
    "makedirs disk_full_world"
    "get_domain (ip_addr disk_full_world) (seed_url lonely_config) = Inr ''seed.example''"
    "crawl_iter 0 lonely_config disk_full_world (initial_state lonely_config ''seed.example'')
       = Inr (initial_state lonely_config ''seed.example'')"
    "running lonely_config (initial_state lonely_config ''seed.example'')"
    using lonely_seed lonely_domain
    by (simp_all add: initial_state_def disk_full_world_def running_def)
       (simp_all add: lonely_config_def)
  from write_failure_ends_run [of "initial_state lonely_config ''seed.example''"
      "''http://seed.example''" "[]" disk_full_world "''<html><body>no links</body></html>''"
      lonely_config "''seed.example''" 0] h
  show ?thesis by simp
qed

text \<open>
  C9 as stated fails: with a disk that takes no file, the run of the script is the
  exception, not a summary.
\<close>

theorem write_failure_counterexample:
  "run lonely_config disk_full_world = Inl OSError"
  using disk_full_run by (cases "run lonely_config disk_full_world") simp_all

section \<open>Links\<close>

text \<open>
  C6. For a page whose \<^verbatim>\<open>href\<close> attributes are \<^verbatim>\<open>#top\<close>, \<^verbatim>\<open>mailto:a@b.com\<close>, \<^verbatim>\<open>/x\<close> and
  \<^verbatim>\<open>http://other.example/y\<close>, fetched from \<^verbatim>\<open>http://seed.example/page\<close>, \<^verbatim>\<open>extract_links\<close>
  returns the two URLs \<^verbatim>\<open>http://seed.example/x\<close> and \<^verbatim>\<open>http://other.example/y\<close>, in either
  order: the fragment and the mail link are dropped there. With the seed's domain
  \<^verbatim>\<open>seed.example\<close> and an empty queue, the loop over the links then queues
  \<^verbatim>\<open>http://seed.example/x\<close> alone: the link to the other host is dropped there.
\<close>

theorem extract_links_example:
  "findall_href html = [''#top'', ''mailto:a@b.com'', ''/x'', ''http://other.example/y''] \<Longrightarrow>
     (\<exists>links. extract_links ipa order html ''http://seed.example/page'' = Inr links
        \<and> set links = {''http://seed.example/x'', ''http://other.example/y''}
        \<and> distinct links
        \<and> (seed_domain s = ''seed.example'' \<and> queue s = []
             \<and> ''http://seed.example/x'' \<notin> visited_set s \<longrightarrow>
             enqueue_links ipa links s = Inr (s\<lparr>queue := [''http://seed.example/x'']\<rparr>)))"
proof -
  assume f: "findall_href html = [''#top'', ''mailto:a@b.com'', ''/x'', ''http://other.example/y'']"
  let ?x = "''http://seed.example/x''" and ?y = "''http://other.example/y''"
  have e: "extract_links ipa order html ''http://seed.example/page''
             = Inr (if order ?x \<le> order ?y then [?x, ?y] else [?y, ?x])"
    unfolding extract_links_def f example_found by (simp only: sum.case sort_key_two)
  have q1: "enqueue_links ipa [?x, ?y] s = Inr (s\<lparr>queue := [?x]\<rparr>)"
    if "seed_domain s = ''seed.example'' \<and> queue s = [] \<and> ?x \<notin> visited_set s"
    using that by (simp add: example_domains)
  have q2: "enqueue_links ipa [?y, ?x] s = Inr (s\<lparr>queue := [?x]\<rparr>)"
    if "seed_domain s = ''seed.example'' \<and> queue s = [] \<and> ?x \<notin> visited_set s"
    using that by (simp add: example_domains)
  show ?thesis
  proof (cases "order ?x \<le> order ?y")
    case True
    with e q1 show ?thesis by (intro exI [of _ "[?x, ?y]"]) auto
  next
    case False
    with e q2 show ?thesis by (intro exI [of _ "[?y, ?x]"]) auto
  qed
qed

theorem extract_links_example_witness:
  "findall_href example_page
     = [''#top'', ''mailto:a@b.com'', ''/x'', ''http://other.example/y'']
   \<and> (\<exists>links. extract_links (\<lambda>h. None) (\<lambda>u. 0) example_page ''http://seed.example/page''
                 = Inr links
        \<and> set links = {''http://seed.example/x'', ''http://other.example/y''}
        \<and> enqueue_links (\<lambda>h. None) links
              ((initial_state lonely_config ''seed.example'')\<lparr>queue := []\<rparr>)
            = Inr ((initial_state lonely_config ''seed.example'')
                     \<lparr>queue := [''http://seed.example/x'']\<rparr>))"
proof -
  from extract_links_example [OF example_page_links, of "\<lambda>h. None" "\<lambda>u. 0"
      "(initial_state lonely_config ''seed.example'')\<lparr>queue := []\<rparr>"]
  obtain links where
    l: "extract_links (\<lambda>h. None) (\<lambda>u. 0) example_page ''http://seed.example/page'' = Inr links"
      "set links = {''http://seed.example/x'', ''http://other.example/y''}"
      "seed_domain ((initial_state lonely_config ''seed.example'')\<lparr>queue := []\<rparr>) = ''seed.example''
         \<and> queue ((initial_state lonely_config ''seed.example'')\<lparr>queue := []\<rparr>) = []
         \<and> ''http://seed.example/x''
             \<notin> visited_set ((initial_state lonely_config ''seed.example'')\<lparr>queue := []\<rparr>) \<longrightarrow>
       enqueue_links (\<lambda>h. None) links ((initial_state lonely_config ''seed.example'')\<lparr>queue := []\<rparr>)
         = Inr ((initial_state lonely_config ''seed.example'')\<lparr>queue := [],
                  queue := [''http://seed.example/x'']\<rparr>)"
    by blast
  from l(3) have "enqueue_links (\<lambda>h. None) links
              ((initial_state lonely_config ''seed.example'')\<lparr>queue := []\<rparr>)
            = Inr ((initial_state lonely_config ''seed.example'')
                     \<lparr>queue := [''http://seed.example/x'']\<rparr>)"
    by (simp add: initial_state_def)
  with l(1,2) example_page_links show ?thesis by blast
qed

text \<open>
  C7, as the code has it. \<^verbatim>\<open>rstrip("/")\<close> strips every trailing slash, not one: a
  normalised URL never ends with \<^verbatim>\<open>/\<close>, and it is the joined URL without its fragment
  and without all the slashes at its end. So \<^verbatim>\<open>http://host\<close>, \<^verbatim>\<open>http://host/\<close> and
  \<^verbatim>\<open>http://host//\<close> normalise alike, against every base: to \<^verbatim>\<open>http://host\<close> where the
  base is empty or can be parsed, to the \<^verbatim>\<open>ValueError\<close> of the base otherwise.
\<close>

theorem trailing_slashes:
  "(normalize ipa base link = Inr (Some u) \<longrightarrow>
      u \<noteq> [] \<and> last u \<noteq> CHR ''/''
      \<and> (\<exists>abs_link p k. urljoin ipa base link = Inr abs_link
             \<and> urlparse ipa abs_link [] = Inr p
             \<and> urlunparse (p\<lparr>fragment := []\<rparr>) = u @ replicate k CHR ''/''))
   \<and> normalize ipa base ''http://host/'' = normalize ipa base ''http://host''
   \<and> normalize ipa base ''http://host//'' = normalize ipa base ''http://host''
   \<and> (base = [] \<or> (\<exists>b. urlparse ipa base [] = Inr b) \<longrightarrow>
        normalize ipa base ''http://host'' = Inr (Some ''http://host''))"
proof (intro conjI impI)
  assume n: "normalize ipa base link = Inr (Some u)"
  from normalize_result [OF n] obtain abs_link p where
    p: "urljoin ipa base link = Inr abs_link" "urlparse ipa abs_link [] = Inr p"
      "u = rstrip is_slash (urlunparse (p\<lparr>fragment := []\<rparr>))"
      "startswith u ''http://'' \<or> startswith u ''https://''"
    by blast
  from p(4) show "u \<noteq> []" by (auto simp: startswith_def)
  with rstrip_last [of is_slash "urlunparse (p\<lparr>fragment := []\<rparr>)"] p(3)
  show "last u \<noteq> CHR ''/''" by (simp add: is_slash_def)
  from rstrip_slashes [of "urlunparse (p\<lparr>fragment := []\<rparr>)"] p(3)
  have "urlunparse (p\<lparr>fragment := []\<rparr>)
          = u @ replicate (length (takeWhile is_slash (rev (urlunparse (p\<lparr>fragment := []\<rparr>)))))
                  CHR ''/''"
    by simp
  with p(1,2) show "\<exists>abs_link p k. urljoin ipa base link = Inr abs_link
             \<and> urlparse ipa abs_link [] = Inr p
             \<and> urlunparse (p\<lparr>fragment := []\<rparr>) = u @ replicate k CHR ''/''"
    by blast
next
  show "normalize ipa base ''http://host/'' = normalize ipa base ''http://host''"
    by (simp add: host_forms_normalize)
  show "normalize ipa base ''http://host//'' = normalize ipa base ''http://host''"
    by (simp add: host_forms_normalize)
next
  assume "base = [] \<or> (\<exists>b. urlparse ipa base [] = Inr b)"
  then show "normalize ipa base ''http://host'' = Inr (Some ''http://host'')"
    by (auto simp: host_forms_normalize)
qed

theorem trailing_slashes_witness:
  "normalize (\<lambda>h. None) ''http://seed.example/page'' ''http://host//''
     = Inr (Some ''http://host'')
   \<and> last ''http://host'' \<noteq> CHR ''/''
   \<and> (\<exists>abs_link p k.
         urljoin (\<lambda>h. None) ''http://seed.example/page'' ''http://host//'' = Inr abs_link
         \<and> urlparse (\<lambda>h. None) abs_link [] = Inr p
         \<and> urlunparse (p\<lparr>fragment := []\<rparr>) = ''http://host'' @ replicate k CHR ''/'')
   \<and> normalize (\<lambda>h. None) ''http://seed.example/page'' ''http://host/''
       = Inr (Some ''http://host'')
   \<and> normalize (\<lambda>h. None) ''http://seed.example/page'' ''http://host''
       = Inr (Some ''http://host'')"
proof -
  note t = trailing_slashes [of "\<lambda>h. None" "''http://seed.example/page''" "''http://host//''"
      "''http://host''"]
  have b: "''http://seed.example/page'' = []
      \<or> (\<exists>b. urlparse (\<lambda>h. None) ''http://seed.example/page'' [] = Inr b)"
    using seed_page_parse by blast
  from t b have 1: "normalize (\<lambda>h. None) ''http://seed.example/page'' ''http://host''
       = Inr (Some ''http://host'')"
    by blast
  with t have 2: "normalize (\<lambda>h. None) ''http://seed.example/page'' ''http://host/''
       = Inr (Some ''http://host'')"
    by simp
  from t double_slash_normal have 3: "last ''http://host'' \<noteq> CHR ''/''"
    and 4: "\<exists>abs_link p k.
         urljoin (\<lambda>h. None) ''http://seed.example/page'' ''http://host//'' = Inr abs_link
         \<and> urlparse (\<lambda>h. None) abs_link [] = Inr p
         \<and> urlunparse (p\<lparr>fragment := []\<rparr>) = ''http://host'' @ replicate k CHR ''/''"
    by blast+
  from 1 2 3 4 double_slash_normal show ?thesis by blast
qed

text \<open>
  C7 as stated fails: from \<^verbatim>\<open>http://host//\<close> normalisation removes two slashes, where
  the claim has it remove exactly one.
\<close>

theorem trailing_slashes_counterexample:
  "normalize (\<lambda>h. None) ''http://seed.example/page'' ''http://host//''
     = Inr (Some ''http://host'')
   \<and> length ''http://host//'' - length ''http://host'' = 2"
  by code_simp

text \<open>
  C8, as the code has it. Normalising a normalised URL \<open>u\<close> against the same base gives
  \<open>u\<close> again when \<open>u\<close> has a host that is not empty and passes the check of its
  brackets, has no \<^verbatim>\<open>?\<close> with nothing after it, and has a path that does not end with
  \<^verbatim>\<open>;\<close>. (\<open>url_host\<close>, \<open>url_path\<close> and \<open>url_query\<close> cut \<open>u\<close> after its
  \<^verbatim>\<open>http://\<close> or \<^verbatim>\<open>https://\<close>: the host up to the first of \<^verbatim>\<open>/?#\<close>, the path up to the
  first \<^verbatim>\<open>?\<close>, the query after it.) Where \<^verbatim>\<open>rstrip("/")\<close> has left a bare \<^verbatim>\<open>?\<close> or
  \<^verbatim>\<open>;\<close> at the end, the second pass drops it.
\<close>

theorem normalize_idempotent:
  "normalize ipa base link = Inr (Some u)
   \<and> url_host u \<noteq> [] \<and> netloc_checked ipa (url_host u)
   \<and> (CHR ''?'' \<notin> set u \<or> url_query u \<noteq> [])
   \<and> (url_path u = [] \<or> last (url_path u) \<noteq> CHR '';'')
   \<longrightarrow> normalize ipa base u = Inr (Some u)"
proof
  assume a: "normalize ipa base link = Inr (Some u)
   \<and> url_host u \<noteq> [] \<and> netloc_checked ipa (url_host u)
   \<and> (CHR ''?'' \<notin> set u \<or> url_query u \<noteq> [])
   \<and> (url_path u = [] \<or> last (url_path u) \<noteq> CHR '';'')"
  then have n: "normalize ipa base link = Inr (Some u)" by simp
  from normalize_result [OF n] obtain p where
    p: "u = rstrip is_slash (urlunparse (p\<lparr>fragment := []\<rparr>))"
      "startswith u ''http://'' \<or> startswith u ''https://''"
    by blast
  from normalize_clean [OF n] have c: "clean u" .
  have "set (url_tail u) \<subseteq> set u"
    by (auto simp: url_tail_def after_scheme_def dest: set_dropWhileD in_set_dropD)
  with a have q: "CHR ''?'' \<in> set (url_tail u) \<and> url_query u \<noteq> []
      \<or> CHR ''?'' \<notin> set (url_tail u)"
    by auto
  from a p(2) c q have st: "stable_url ipa u"
    by (simp add: stable_url_def clean_def)
  from rstrip_last [of is_slash "urlunparse (p\<lparr>fragment := []\<rparr>)"] p(1)
  have fx: "u = [] \<or> last u \<noteq> CHR ''/''"
    by (simp add: is_slash_def)
  from st fx normalize_base [OF n] show "normalize ipa base u = Inr (Some u)"
    by (rule normalize_stable)
qed

theorem normalize_idempotent_witness:
  "normalize (\<lambda>h. None) ''http://seed.example/page'' ''/x/'' = Inr (Some ''http://seed.example/x'')
   \<and> normalize (\<lambda>h. None) ''http://seed.example/page'' ''http://seed.example/x''
       = Inr (Some ''http://seed.example/x'')"
  using normalize_idempotent [of "\<lambda>h. None" "''http://seed.example/page''" "''/x/''"
      "''http://seed.example/x''"] slash_x_normal seed_x_settled
  by blast

text \<open>
  C8 as stated fails: \<^verbatim>\<open>http://h/a?/\<close> normalises to \<^verbatim>\<open>http://h/a?\<close>, which normalises to
  \<^verbatim>\<open>http://h/a\<close>; and \<^verbatim>\<open>http://h/a;/\<close> to \<^verbatim>\<open>http://h/a;\<close>, which normalises to
  \<^verbatim>\<open>http://h/a\<close>.
\<close>

theorem normalize_counterexample:
  "normalize (\<lambda>h. None) ''http://seed.example/page'' ''http://h/a?/'' = Inr (Some ''http://h/a?'')
   \<and> normalize (\<lambda>h. None) ''http://seed.example/page'' ''http://h/a?'' = Inr (Some ''http://h/a'')
   \<and> normalize (\<lambda>h. None) ''http://seed.example/page'' ''http://h/a;/'' = Inr (Some ''http://h/a;'')
   \<and> normalize (\<lambda>h. None) ''http://seed.example/page'' ''http://h/a;'' = Inr (Some ''http://h/a'')"
  by code_simp

section \<open>The fetcher\<close>

text \<open>
  C2. One fetch attempt is classified by its outcome: status 200 gives \<^verbatim>\<open>"ok"\<close> with the
  body of the response; a status from 500 to 599 gives \<^verbatim>\<open>"transient"\<close>; any other
  status gives \<^verbatim>\<open>"permanent"\<close>; an exception of the request layer (connection error,
  timeout, TLS error and the others) gives \<^verbatim>\<open>"transient"\<close>. This holds for every URL
  and every timeout.
\<close>

theorem fetch_page_classification:
  "(get url timeout = Response 200 body \<longrightarrow>
      fetch_page get url timeout = (Some body, ''ok''))
   \<and> (get url timeout = Response status_code body \<and> 500 \<le> status_code \<and> status_code < 600 \<longrightarrow>
      fetch_page get url timeout = (None, ''transient''))
   \<and> (get url timeout = Response status_code body \<and> status_code \<noteq> 200
        \<and> (status_code < 500 \<or> 600 \<le> status_code) \<longrightarrow>
      fetch_page get url timeout = (None, ''permanent''))
   \<and> (get url timeout = Raises exc \<longrightarrow>
      fetch_page get url timeout = (None, ''transient''))"
  by (auto simp: fetch_page_def)

theorem fetch_page_classification_witness:
  "fetch_page (\<lambda>u t. Response 200 ''<html>'') ''http://a.example'' (5::int)
     = (Some ''<html>'', ''ok'')
   \<and> fetch_page (\<lambda>u t. Response 503 ''busy'') ''http://a.example'' (5::int)
     = (None, ''transient'')
   \<and> fetch_page (\<lambda>u t. Response 404 ''gone'') ''http://a.example'' (5::int)
     = (None, ''permanent'')
   \<and> fetch_page (\<lambda>u t. Raises Timeout) ''http://a.example'' (5::int)
     = (None, ''transient'')"
  using
    fetch_page_classification [of "\<lambda>u t. Response 200 ''<html>''" "''http://a.example''" "5::int"
      "''<html>''" 200 Timeout]
    fetch_page_classification [of "\<lambda>u t. Response 503 ''busy''" "''http://a.example''" "5::int"
      "''busy''" 503 Timeout]
    fetch_page_classification [of "\<lambda>u t. Response 404 ''gone''" "''http://a.example''" "5::int"
      "''gone''" 404 Timeout]
    fetch_page_classification [of "\<lambda>u t. Raises Timeout" "''http://a.example''" "5::int"
      "''x''" 0 Timeout]
  by simp

text \<open>
  C10. \<^verbatim>\<open>fetch_page\<close> returns for every outcome of the request, a response or an
  exception of the request layer: its status is one of \<^verbatim>\<open>"ok"\<close>, \<^verbatim>\<open>"transient"\<close> and
  \<^verbatim>\<open>"permanent"\<close>, and its body is not \<^verbatim>\<open>None\<close> exactly when the status is \<^verbatim>\<open>"ok"\<close>.
\<close>

theorem fetch_page_total:
  "snd (fetch_page get url timeout) \<in> {''ok'', ''transient'', ''permanent''}
   \<and> (fst (fetch_page get url timeout) \<noteq> None) = (snd (fetch_page get url timeout) = ''ok'')"
  by (simp add: fetch_page_def split: http_result.split)

end
